theory Spec2Isabelle
  imports Main "HOL-Library.Word" "HOL-Library.List_Lexorder"
begin

section \<open>Bytes, addresses and hashes\<close>

text \<open>
  Go's \<^verbatim>\<open>[]byte\<close> is a list of 8-bit words. Byte strings are compared
  lexicographically (a proper prefix is smaller), which is the order in which
  the immutable radix tree walks its keys.
\<close>

type_synonym byte = "8 word"
type_synonym bytes = "byte list"

text \<open>
  Modelled from the spec: the \<^verbatim>\<open>types\<close> package (\<^verbatim>\<open>Address\<close>,
  \<^verbatim>\<open>Hash\<close>, \<^verbatim>\<open>BytesToHash\<close>, \<^verbatim>\<open>BytesToAddress\<close>) is not among the
  sources. The spec fixes an address as a 20-byte and a hash as a 32-byte
  value; the conversions from a byte slice keep the rightmost bytes and pad
  with zeros on the left.
\<close>

typedef address = "{xs :: bytes. length xs = 20}"
  morphisms AddressBytes Abs_address
  by (rule exI [of _ "replicate 20 0"]) simp

typedef hash = "{xs :: bytes. length xs = 32}"
  morphisms HashBytes Abs_hash
  by (rule exI [of _ "replicate 32 0"]) simp

definition right_align :: "nat \<Rightarrow> bytes \<Rightarrow> bytes" where
  "right_align n b = replicate (n - length b) 0 @ drop (length b - n) b"

definition BytesToAddress :: "bytes \<Rightarrow> address" where
  "BytesToAddress b = Abs_address (right_align 20 b)"

definition BytesToHash :: "bytes \<Rightarrow> hash" where
  "BytesToHash b = Abs_hash (right_align 32 b)"

definition zeroHash :: hash where
  "zeroHash = BytesToHash []"

text \<open>\<^verbatim>\<open>EmptyStateHash\<close>, as the source spells it out.\<close>

definition EmptyStateHash :: hash where
  "EmptyStateHash = BytesToHash
     [0x56, 0xe8, 0x1f, 0x17, 0x1b, 0xcc, 0x55, 0xa6, 0xff, 0x83, 0x45, 0xe6, 0x92, 0xc0, 0xf8, 0x6e,
      0x5b, 0x48, 0xe0, 0x1b, 0x99, 0x6c, 0xad, 0xc0, 0x01, 0x62, 0x2f, 0xb5, 0xe3, 0x63, 0xb4, 0x21]"

text \<open>
  Modelled from the spec: the declaration of \<^verbatim>\<open>EmptyCodeHash\<close> is not among
  the sources; the spec fixes it as \<open>keccak256\<close> of the empty byte string,
  whose value is the constant below.
\<close>

definition EmptyCodeHash :: hash where
  "EmptyCodeHash = BytesToHash
     [0xc5, 0xd2, 0x46, 0x01, 0x86, 0xf7, 0x23, 0x3c, 0x92, 0x7e, 0x7d, 0xb2, 0xdc, 0xc7, 0x03, 0xc0,
      0xe5, 0x00, 0xb6, 0x53, 0xca, 0x82, 0x27, 0x3b, 0x7b, 0xfa, 0xd8, 0x04, 0x5d, 0x85, 0xa4, 0x70]"

text \<open>The two sentinel keys of the journal.\<close>

definition logIndex :: bytes where
  "logIndex = HashBytes (BytesToHash [2])"

definition refundIndex :: bytes where
  "refundIndex = HashBytes (BytesToHash [3])"

section \<open>The immutable radix tree\<close>

text \<open>
  \<^verbatim>\<open>go-immutable-radix\<close> is a persistent map from byte strings to values: a
  tree published by \<^verbatim>\<open>CommitOnly\<close> is never changed by later insertions, so a
  tree is a value. It is kept here as the list of its entries in walk order.
\<close>

type_synonym 'v tree = "(bytes \<times> 'v) list"

definition iradix_New :: "'v tree" where
  "iradix_New = []"

fun Get :: "'v tree \<Rightarrow> bytes \<Rightarrow> 'v option" where
  "Get [] k = None"
| "Get ((k', v) # t) k = (if k' = k then Some v else Get t k)"

fun Insert :: "'v tree \<Rightarrow> bytes \<Rightarrow> 'v \<Rightarrow> 'v tree" where
  "Insert [] k v = [(k, v)]"
| "Insert ((k', v') # t) k v =
     (if k < k' then (k, v) # (k', v') # t
      else if k = k' then (k, v) # t
      else (k', v') # Insert t k v)"

fun Delete :: "'v tree \<Rightarrow> bytes \<Rightarrow> 'v tree" where
  "Delete [] k = []"
| "Delete ((k', v') # t) k = (if k' = k then Delete t k else (k', v') # Delete t k)"

definition Walk :: "'v tree \<Rightarrow> (bytes \<times> 'v) list" where
  "Walk t = t"

definition sorted_tree :: "'v tree \<Rightarrow> bool" where
  "sorted_tree t = sorted_wrt (<) (map fst t)"

section \<open>Panics\<close>

text \<open>
  A Go panic ends the program. Every operation that can panic returns
  \<open>Inl\<close> of the panic, and \<open>Inr\<close> of its result otherwise.
\<close>

datatype panic =
  ExplicitPanic string
| IndexOutOfRange
| TypeAssertionFailed
| NilDereference

section \<open>Accounts, state objects and the journal\<close>

text \<open>
  Modelled from the spec: the declarations of \<^verbatim>\<open>Account\<close>, \<^verbatim>\<open>Log\<close> and
  \<^verbatim>\<open>stateObject\<close> are not among the sources. The records have the fields
  that the source reads and writes, with the types it uses them at: the
  balance is a \<^verbatim>\<open>big.Int\<close> (an integer with a sign), the nonce a
  \<^verbatim>\<open>uint64\<close>, the code hash a byte slice.
\<close>

record Account =
  Nonce :: "64 word"
  Balance :: int
  Root :: hash
  CodeHash :: bytes

record Log =
  log_Address :: address
  log_Topics :: "hash list"
  log_Data :: bytes

text \<open>
  A state object. \<^verbatim>\<open>Txn\<close> is the slot overlay, a radix tree from slot key
  to value bytes, where the value \<^verbatim>\<open>nil\<close> (a tombstone) is \<open>None\<close>; the
  field itself is a pointer and may be \<^verbatim>\<open>nil\<close>.
\<close>

record stateObject =
  so_Account :: Account
  so_Code :: bytes
  so_Suicide :: bool
  so_Deleted :: bool
  so_DirtyCode :: bool
  so_Txn :: "bytes option tree option"

text \<open>
  Modelled from the spec: the interface \<^verbatim>\<open>Snapshot\<close>, the read-only view
  of committed state behind a transaction, is declared outside the sources;
  its three methods are called in the source with these arguments.
  \<^verbatim>\<open>GetAccount\<close> returns an account pointer and an error, \<^verbatim>\<open>GetCode\<close>
  the code and a flag.
\<close>

record Snapshot =
  snap_GetAccount :: "address \<Rightarrow> Account option \<times> string option"
  snap_GetStorage :: "address \<Rightarrow> hash \<Rightarrow> hash \<Rightarrow> hash"
  snap_GetCode :: "hash \<Rightarrow> address \<Rightarrow> bytes \<times> bool"

text \<open>
  A slice of log pointers: a backing array on the heap, a length and a
  capacity. Cells of the backing array hold \<^verbatim>\<open>nil\<close> until they are written.
\<close>

record slice =
  sl_arr :: nat
  sl_len :: nat
  sl_cap :: nat

text \<open>
  The journal holds values of three dynamic kinds under one key space:
  state objects under address keys, the log slice and the refund counter
  under the two sentinel keys.
\<close>

datatype jvalue =
  JObj stateObject
| JLogs slice
| JRefund "64 word"

text \<open>
  The transaction. \<open>heap\<close> is not a field of the Go struct: it is the part of
  the Go heap that the code writes in place, the backing arrays of the log
  slices, indexed by allocation order.
\<close>

record Txn =
  snapshot :: Snapshot
  snapshots :: "jvalue tree list"
  txn :: "jvalue tree"
  rev :: int
  heap :: "Log option list list"

definition newTxn :: "Snapshot \<Rightarrow> Txn" where
  "newTxn s = \<lparr>snapshot = s, snapshots = [], txn = iradix_New, rev = 0, heap = []\<rparr>"

definition NewTxn :: "Snapshot \<Rightarrow> Txn" where
  "NewTxn s = newTxn s"

text \<open>
  Modelled from the spec: \<^verbatim>\<open>Account.Copy\<close> and \<^verbatim>\<open>stateObject.Copy\<close> are
  not among the sources. The spec makes the copy an independent object with
  the same contents (the balance is copied, the slot overlay is the same
  persistent structure), which on values is the identity.
\<close>

definition Account_Copy :: "Account \<Rightarrow> Account" where
  "Account_Copy a = a"

definition Copy :: "stateObject \<Rightarrow> stateObject" where
  "Copy obj = obj\<lparr>so_Account := Account_Copy (so_Account obj)\<rparr>"

text \<open>
  Modelled from the spec: \<^verbatim>\<open>stateObject.Empty\<close> is not among the sources;
  an account is empty iff its balance and nonce are zero and its code hash is
  \<^verbatim>\<open>EmptyCodeHash\<close>.
\<close>

definition Empty_obj :: "stateObject \<Rightarrow> bool" where
  "Empty_obj obj =
     (Balance (so_Account obj) = 0 \<and> Nonce (so_Account obj) = 0
      \<and> CodeHash (so_Account obj) = HashBytes EmptyCodeHash)"

definition newStateObject :: stateObject where
  "newStateObject =
     \<lparr>so_Account = \<lparr>Nonce = 0, Balance = 0, Root = EmptyStateHash, CodeHash = HashBytes EmptyCodeHash\<rparr>,
      so_Code = [], so_Suicide = False, so_Deleted = False, so_DirtyCode = False, so_Txn = None\<rparr>"

section \<open>Snapshots of the journal\<close>

definition Snapshot :: "Txn \<Rightarrow> int \<times> Txn" where
  "Snapshot t =
     (let tr = txn t;
          sid = int (length (snapshots t))
      in (sid, t\<lparr>snapshots := snapshots t @ [tr]\<rparr>))"

definition RevertToSnapshot :: "Txn \<Rightarrow> int \<Rightarrow> panic + Txn" where
  "RevertToSnapshot t sid =
     (if sid > int (length (snapshots t)) then Inl (ExplicitPanic [])
      else if sid < 0 \<or> sid \<ge> int (length (snapshots t)) then Inl IndexOutOfRange
      else Inr (t\<lparr>txn := snapshots t ! nat sid\<rparr>))"

section \<open>Reading and writing accounts\<close>

definition getStateObject :: "Txn \<Rightarrow> address \<Rightarrow> panic + stateObject option" where
  "getStateObject t addr =
     (case Get (txn t) (AddressBytes addr) of
        Some val \<Rightarrow>
          (case val of
             JObj obj \<Rightarrow> if so_Deleted obj then Inr None else Inr (Some (Copy obj))
           | _ \<Rightarrow> Inl TypeAssertionFailed)
      | None \<Rightarrow>
          (case snap_GetAccount (snapshot t) addr of
             (account, err) \<Rightarrow>
               if err \<noteq> None then Inr None
               else (case account of
                       None \<Rightarrow> Inr None
                     | Some acc \<Rightarrow>
                         Inr (Some \<lparr>so_Account = Account_Copy acc, so_Code = [], so_Suicide = False,
                                    so_Deleted = False, so_DirtyCode = False, so_Txn = None\<rparr>))))"

definition GetAccount :: "Txn \<Rightarrow> address \<Rightarrow> panic + Account option" where
  "GetAccount t addr =
     (case getStateObject t addr of
        Inl p \<Rightarrow> Inl p
      | Inr None \<Rightarrow> Inr None
      | Inr (Some object) \<Rightarrow> Inr (Some (so_Account object)))"

text \<open>
  The callback of \<^verbatim>\<open>upsertAccount\<close> receives the object pointer, which is
  \<^verbatim>\<open>nil\<close> (\<open>None\<close>) when the account is absent and not created. It returns
  the object as it has changed it, and what it has assigned to the variables
  it captures. A callback that reads a field through \<^verbatim>\<open>nil\<close> panics.
\<close>

definition deref :: "(stateObject \<Rightarrow> stateObject) \<Rightarrow> stateObject option \<Rightarrow> panic + stateObject option \<times> unit" where
  "deref g object = (case object of None \<Rightarrow> Inl NilDereference | Some obj \<Rightarrow> Inr (Some (g obj), ()))"

definition upsertAccount ::
  "Txn \<Rightarrow> address \<Rightarrow> bool \<Rightarrow> (stateObject option \<Rightarrow> panic + stateObject option \<times> 'r) \<Rightarrow> panic + 'r \<times> Txn" where
  "upsertAccount t addr create f =
     (case getStateObject t addr of
        Inl p \<Rightarrow> Inl p
      | Inr got \<Rightarrow>
          (let object = (if got = None \<and> create then Some newStateObject else got)
           in case f object of
                Inl p \<Rightarrow> Inl p
              | Inr (object', r) \<Rightarrow>
                  (case object' of
                     None \<Rightarrow> Inr (r, t)
                   | Some obj \<Rightarrow> Inr (r, t\<lparr>txn := Insert (txn t) (AddressBytes addr) (JObj obj)\<rparr>))))"

definition modify :: "Txn \<Rightarrow> address \<Rightarrow> (stateObject \<Rightarrow> stateObject) \<Rightarrow> panic + Txn" where
  "modify t addr g = (case upsertAccount t addr True (deref g) of Inl p \<Rightarrow> Inl p | Inr (_, t') \<Rightarrow> Inr t')"

definition set_Balance :: "int \<Rightarrow> stateObject \<Rightarrow> stateObject" where
  "set_Balance b obj = obj\<lparr>so_Account := (so_Account obj)\<lparr>Balance := b\<rparr>\<rparr>"

text \<open>\<^verbatim>\<open>x.SetBytes(y.Bytes())\<close> stores the magnitude of \<^verbatim>\<open>y\<close>.\<close>

definition AddSealingReward :: "Txn \<Rightarrow> address \<Rightarrow> int \<Rightarrow> panic + Txn" where
  "AddSealingReward t addr balance =
     modify t addr (\<lambda>object.
       if so_Suicide object then set_Balance \<bar>balance\<bar> newStateObject
       else set_Balance (Balance (so_Account object) + balance) object)"

definition AddBalance :: "Txn \<Rightarrow> address \<Rightarrow> int \<Rightarrow> panic + Txn" where
  "AddBalance t addr balance =
     modify t addr (\<lambda>object. set_Balance (Balance (so_Account object) + balance) object)"

definition GetBalance :: "Txn \<Rightarrow> address \<Rightarrow> panic + int" where
  "GetBalance t addr =
     (case getStateObject t addr of
        Inl p \<Rightarrow> Inl p
      | Inr None \<Rightarrow> Inr 0
      | Inr (Some object) \<Rightarrow> Inr (Balance (so_Account object)))"

datatype error = ErrNotEnoughFunds

definition SubBalance :: "Txn \<Rightarrow> address \<Rightarrow> int \<Rightarrow> panic + error option \<times> Txn" where
  "SubBalance t addr amount =
     (if amount = 0 then Inr (None, t)
      else case GetBalance t addr of
             Inl p \<Rightarrow> Inl p
           | Inr balance \<Rightarrow>
               if balance < amount then Inr (Some ErrNotEnoughFunds, t)
               else (case modify t addr (\<lambda>object. set_Balance (Balance (so_Account object) - amount) object) of
                       Inl p \<Rightarrow> Inl p
                     | Inr t' \<Rightarrow> Inr (None, t')))"

definition SetBalance :: "Txn \<Rightarrow> address \<Rightarrow> int \<Rightarrow> panic + Txn" where
  "SetBalance t addr balance = modify t addr (set_Balance \<bar>balance\<bar>)"

section \<open>Logs\<close>

text \<open>
  Go's \<^verbatim>\<open>append(s, x)\<close>. With room left in the backing array it writes the
  cell behind the slice in place and returns a longer slice of the same
  array; otherwise it allocates a new array, copies the elements and adds
  \<^verbatim>\<open>x\<close>. The capacity of a new array is the choice of the runtime;
  \<open>growslice\<close> is the rule of the Go runtime for growth by one element
  (doubling below 256 elements), without its final rounding to an allocation
  size class, which changes no capacity of a pointer slice up to 512.
\<close>

definition growslice :: "nat \<Rightarrow> nat \<Rightarrow> nat" where
  "growslice oldCap newLen =
     (if newLen > oldCap + oldCap then newLen
      else if oldCap < 256 then oldCap + oldCap
      else oldCap + (oldCap + 3 * 256) div 4)"

definition slice_elems :: "Log option list list \<Rightarrow> slice \<Rightarrow> Log option list" where
  "slice_elems h s = take (sl_len s) (h ! sl_arr s)"

definition go_append :: "Log option list list \<Rightarrow> slice \<Rightarrow> Log option \<Rightarrow> Log option list list \<times> slice" where
  "go_append h s x =
     (if sl_len s < sl_cap s
      then (h[sl_arr s := (h ! sl_arr s)[sl_len s := x]], s\<lparr>sl_len := sl_len s + 1\<rparr>)
      else (let c = growslice (sl_cap s) (sl_len s + 1)
            in (h @ [slice_elems h s @ [x] @ replicate (c - (sl_len s + 1)) None],
                \<lparr>sl_arr = length h, sl_len = sl_len s + 1, sl_cap = c\<rparr>)))"

text \<open>The empty slice literal: no elements and no capacity.\<close>

definition empty_slice :: slice where
  "empty_slice = \<lparr>sl_arr = 0, sl_len = 0, sl_cap = 0\<rparr>"

definition EmitLog :: "Txn \<Rightarrow> address \<Rightarrow> hash list \<Rightarrow> bytes \<Rightarrow> panic + Txn" where
  "EmitLog t addr topics data =
     (let log = \<lparr>log_Address = addr, log_Topics = topics, log_Data = data\<rparr>;
          got = (case Get (txn t) logIndex of
                   None \<Rightarrow> Inr empty_slice
                 | Some (JLogs l) \<Rightarrow> Inr l
                 | Some _ \<Rightarrow> Inl TypeAssertionFailed)
      in case got of
           Inl p \<Rightarrow> Inl p
         | Inr logs \<Rightarrow>
             (case go_append (heap t) logs (Some log) of
                (h, logs') \<Rightarrow> Inr (t\<lparr>txn := Insert (txn t) logIndex (JLogs logs'), heap := h\<rparr>)))"

definition Logs :: "Txn \<Rightarrow> panic + Log option list \<times> Txn" where
  "Logs t =
     (case Get (txn t) logIndex of
        None \<Rightarrow> Inr ([], t)
      | Some (JLogs l) \<Rightarrow> Inr (slice_elems (heap t) l, t\<lparr>txn := Delete (txn t) logIndex\<rparr>)
      | Some _ \<Rightarrow> Inl TypeAssertionFailed)"

section \<open>Refund counter\<close>

definition GetRefund :: "Txn \<Rightarrow> panic + 64 word" where
  "GetRefund t =
     (case Get (txn t) refundIndex of
        None \<Rightarrow> Inr 0
      | Some (JRefund r) \<Rightarrow> Inr r
      | Some _ \<Rightarrow> Inl TypeAssertionFailed)"

definition AddRefund :: "Txn \<Rightarrow> 64 word \<Rightarrow> panic + Txn" where
  "AddRefund t gas =
     (case GetRefund t of
        Inl p \<Rightarrow> Inl p
      | Inr r \<Rightarrow> Inr (t\<lparr>txn := Insert (txn t) refundIndex (JRefund (r + gas))\<rparr>))"

definition SubRefund :: "Txn \<Rightarrow> 64 word \<Rightarrow> panic + Txn" where
  "SubRefund t gas =
     (case GetRefund t of
        Inl p \<Rightarrow> Inl p
      | Inr r \<Rightarrow> Inr (t\<lparr>txn := Insert (txn t) refundIndex (JRefund (r - gas))\<rparr>))"

section \<open>Storage\<close>

text \<open>
  Revisions are the numbers of \<^verbatim>\<open>evmc.Revision\<close>, ordered by time, and
  the storage statuses are those of \<^verbatim>\<open>evmc.StorageStatus\<close> that the source
  returns.
\<close>

definition Constantinople :: int where "Constantinople = 5"
definition Petersburg :: int where "Petersburg = 6"
definition Istanbul :: int where "Istanbul = 7"

datatype StorageStatus =
  StorageUnchanged
| StorageModified
| StorageModifiedAgain
| StorageAdded
| StorageDeleted

definition isRevision :: "Txn \<Rightarrow> int \<Rightarrow> bool" where
  "isRevision t r = (r \<le> rev t)"

definition SetState :: "Txn \<Rightarrow> address \<Rightarrow> hash \<Rightarrow> hash \<Rightarrow> panic + Txn" where
  "SetState t addr key val =
     modify t addr (\<lambda>object.
       let tr = (case so_Txn object of None \<Rightarrow> iradix_New | Some tr \<Rightarrow> tr)
       in if val = zeroHash
          then object\<lparr>so_Txn := Some (Insert tr (HashBytes key) None)\<rparr>
          else object\<lparr>so_Txn := Some (Insert tr (HashBytes key) (Some (HashBytes val)))\<rparr>)"

definition GetState :: "Txn \<Rightarrow> address \<Rightarrow> hash \<Rightarrow> panic + hash" where
  "GetState t addr key =
     (case getStateObject t addr of
        Inl p \<Rightarrow> Inl p
      | Inr None \<Rightarrow> Inr zeroHash
      | Inr (Some object) \<Rightarrow>
          (case (case so_Txn object of None \<Rightarrow> None | Some tr \<Rightarrow> Get tr (HashBytes key)) of
             Some None \<Rightarrow> Inr zeroHash
           | Some (Some val) \<Rightarrow> Inr (BytesToHash val)
           | None \<Rightarrow> Inr (snap_GetStorage (snapshot t) addr (Root (so_Account object)) key)))"

definition GetCommittedState :: "Txn \<Rightarrow> address \<Rightarrow> hash \<Rightarrow> panic + hash" where
  "GetCommittedState t addr key =
     (case getStateObject t addr of
        Inl p \<Rightarrow> Inl p
      | Inr None \<Rightarrow> Inr zeroHash
      | Inr (Some obj) \<Rightarrow> Inr (snap_GetStorage (snapshot t) addr (Root (so_Account obj)) key))"

definition with_status :: "StorageStatus \<Rightarrow> panic + Txn \<Rightarrow> panic + StorageStatus \<times> Txn" where
  "with_status st r = (case r of Inl p \<Rightarrow> Inl p | Inr t \<Rightarrow> Inr (st, t))"

definition SetStorage :: "Txn \<Rightarrow> address \<Rightarrow> hash \<Rightarrow> hash \<Rightarrow> panic + StorageStatus \<times> Txn" where
  "SetStorage t addr key val =
     (case GetState t addr key of
        Inl p \<Rightarrow> Inl p
      | Inr oldValue \<Rightarrow>
          if oldValue = val then Inr (StorageUnchanged, t)
          else
            (let current = oldValue
             in case GetCommittedState t addr key of
                  Inl p \<Rightarrow> Inl p
                | Inr original \<Rightarrow>
                    (case SetState t addr key val of
                       Inl p \<Rightarrow> Inl p
                     | Inr t1 \<Rightarrow>
                         (let isIstanbul = isRevision t1 Istanbul;
                              legacyGasMetering =
                                (\<not> isIstanbul \<and> (isRevision t1 Petersburg \<or> \<not> isRevision t1 Constantinople))
                          in if legacyGasMetering then
                               (if oldValue = zeroHash then Inr (StorageAdded, t1)
                                else if val = zeroHash then with_status StorageDeleted (AddRefund t1 15000)
                                else Inr (StorageModified, t1))
                             else if original = current then
                               (if original = zeroHash then Inr (StorageAdded, t1)
                                else if val = zeroHash then with_status StorageDeleted (AddRefund t1 15000)
                                else Inr (StorageModified, t1))
                             else
                               (case (if original \<noteq> zeroHash
                                      then (if current = zeroHash then SubRefund t1 15000
                                            else if val = zeroHash then AddRefund t1 15000
                                            else Inr t1)
                                      else Inr t1) of
                                  Inl p \<Rightarrow> Inl p
                                | Inr t2 \<Rightarrow>
                                    with_status StorageModifiedAgain
                                      (if original = val
                                       then (if original = zeroHash
                                             then (if isIstanbul then AddRefund t2 19200 else AddRefund t2 19800)
                                             else (if isIstanbul then AddRefund t2 4200 else AddRefund t2 4800))
                                       else Inr t2))))))"

section \<open>Nonce and code\<close>

definition IncrNonce :: "Txn \<Rightarrow> address \<Rightarrow> panic + Txn" where
  "IncrNonce t addr =
     modify t addr (\<lambda>object. object\<lparr>so_Account := (so_Account object)\<lparr>Nonce := Nonce (so_Account object) + 1\<rparr>\<rparr>)"

definition SetNonce :: "Txn \<Rightarrow> address \<Rightarrow> 64 word \<Rightarrow> panic + Txn" where
  "SetNonce t addr nonce =
     modify t addr (\<lambda>object. object\<lparr>so_Account := (so_Account object)\<lparr>Nonce := nonce\<rparr>\<rparr>)"

definition GetNonce :: "Txn \<Rightarrow> address \<Rightarrow> panic + 64 word" where
  "GetNonce t addr =
     (case getStateObject t addr of
        Inl p \<Rightarrow> Inl p
      | Inr None \<Rightarrow> Inr 0
      | Inr (Some object) \<Rightarrow> Inr (Nonce (so_Account object)))"

text \<open>\<^verbatim>\<open>web3.Keccak256\<close> is a parameter of the operation that hashes code.\<close>

definition SetCode :: "(bytes \<Rightarrow> bytes) \<Rightarrow> Txn \<Rightarrow> address \<Rightarrow> bytes \<Rightarrow> panic + Txn" where
  "SetCode Keccak256 t addr code =
     modify t addr (\<lambda>object.
       object\<lparr>so_Account := (so_Account object)\<lparr>CodeHash := Keccak256 code\<rparr>,
              so_DirtyCode := True, so_Code := code\<rparr>)"

definition GetCode :: "Txn \<Rightarrow> address \<Rightarrow> panic + bytes" where
  "GetCode t addr =
     (case getStateObject t addr of
        Inl p \<Rightarrow> Inl p
      | Inr None \<Rightarrow> Inr []
      | Inr (Some object) \<Rightarrow>
          if so_DirtyCode object then Inr (so_Code object)
          else Inr (fst (snap_GetCode (snapshot t) (BytesToHash (CodeHash (so_Account object))) addr)))"

definition GetCodeSize :: "Txn \<Rightarrow> address \<Rightarrow> panic + int" where
  "GetCodeSize t addr = (case GetCode t addr of Inl p \<Rightarrow> Inl p | Inr code \<Rightarrow> Inr (int (length code)))"

section \<open>Account lifecycle\<close>

definition Suicide :: "Txn \<Rightarrow> address \<Rightarrow> panic + bool \<times> Txn" where
  "Suicide t addr =
     upsertAccount t addr False (\<lambda>object.
       case object of
         None \<Rightarrow> Inr (None, False)
       | Some obj \<Rightarrow>
           (let (suicided, obj1) = (if so_Suicide obj then (False, obj) else (True, obj\<lparr>so_Suicide := True\<rparr>))
            in Inr (Some (set_Balance 0 obj1), suicided)))"

definition HasSuicided :: "Txn \<Rightarrow> address \<Rightarrow> panic + bool" where
  "HasSuicided t addr =
     (case getStateObject t addr of
        Inl p \<Rightarrow> Inl p
      | Inr None \<Rightarrow> Inr False
      | Inr (Some object) \<Rightarrow> Inr (so_Suicide object))"

definition TouchAccount :: "Txn \<Rightarrow> address \<Rightarrow> panic + Txn" where
  "TouchAccount t addr =
     (case upsertAccount t addr True (\<lambda>obj. Inr (obj, ())) of Inl p \<Rightarrow> Inl p | Inr (_, t') \<Rightarrow> Inr t')"

definition Exist :: "Txn \<Rightarrow> address \<Rightarrow> panic + bool" where
  "Exist t addr = (case getStateObject t addr of Inl p \<Rightarrow> Inl p | Inr got \<Rightarrow> Inr (got \<noteq> None))"

definition Empty :: "Txn \<Rightarrow> address \<Rightarrow> panic + bool" where
  "Empty t addr =
     (case getStateObject t addr of
        Inl p \<Rightarrow> Inl p
      | Inr None \<Rightarrow> Inr True
      | Inr (Some obj) \<Rightarrow> Inr (Empty_obj obj))"

definition GetCodeHash :: "Txn \<Rightarrow> address \<Rightarrow> panic + hash" where
  "GetCodeHash t addr =
     (case Empty t addr of
        Inl p \<Rightarrow> Inl p
      | Inr e \<Rightarrow>
          if e then Inr zeroHash
          else (case getStateObject t addr of
                  Inl p \<Rightarrow> Inl p
                | Inr None \<Rightarrow> Inr zeroHash
                | Inr (Some object) \<Rightarrow> Inr (BytesToHash (CodeHash (so_Account object)))))"

definition CreateAccount :: "Txn \<Rightarrow> address \<Rightarrow> panic + Txn" where
  "CreateAccount t addr =
     (let obj = newStateObject
      in case getStateObject t addr of
           Inl p \<Rightarrow> Inl p
         | Inr prev \<Rightarrow>
             (let obj' = (case prev of
                            Some pr \<Rightarrow> set_Balance \<bar>Balance (so_Account pr)\<bar> obj
                          | None \<Rightarrow> obj)
              in Inr (t\<lparr>txn := Insert (txn t) (AddressBytes addr) (JObj obj')\<rparr>)))"

text \<open>
  The walk visits every entry, since the callback never asks to stop; the
  keys it collects are then looked up again and marked one by one.
\<close>

fun mark_deleted :: "jvalue tree \<Rightarrow> bytes list \<Rightarrow> panic + jvalue tree" where
  "mark_deleted j [] = Inr j"
| "mark_deleted j (k # remove) =
     (case Get j k of
        None \<Rightarrow> Inl (ExplicitPanic ''it should not happen'')
      | Some (JObj obj) \<Rightarrow> mark_deleted (Insert j k (JObj ((Copy obj)\<lparr>so_Deleted := True\<rparr>))) remove
      | Some _ \<Rightarrow> Inl (ExplicitPanic ''it should not happen''))"

definition to_remove :: "bool \<Rightarrow> bytes \<times> jvalue \<Rightarrow> bool" where
  "to_remove deleteEmptyObjects e =
     (case snd e of
        JObj a \<Rightarrow> so_Suicide a \<or> Empty_obj a \<and> deleteEmptyObjects
      | _ \<Rightarrow> False)"

definition CleanDeleteObjects :: "Txn \<Rightarrow> bool \<Rightarrow> panic + Txn" where
  "CleanDeleteObjects t deleteEmptyObjects =
     (let remove = map fst (filter (to_remove deleteEmptyObjects) (Walk (txn t)))
      in case mark_deleted (txn t) remove of
           Inl p \<Rightarrow> Inl p
         | Inr j \<Rightarrow> Inr (t\<lparr>txn := Delete j refundIndex\<rparr>))"

section \<open>Commit\<close>

text \<open>
  Modelled from the spec: the declarations of \<^verbatim>\<open>Object\<close> and
  \<^verbatim>\<open>StorageObject\<close> are not among the sources; the records have the
  fields that \<^verbatim>\<open>Commit\<close> fills. A \<^verbatim>\<open>nil\<close> slice is the empty list.
\<close>

record StorageObject =
  st_Deleted :: bool
  st_Key :: bytes
  st_Val :: bytes

record Object =
  o_Address :: address
  o_CodeHash :: hash
  o_Balance :: int
  o_Root :: hash
  o_Nonce :: "64 word"
  o_Deleted :: bool
  o_DirtyCode :: bool
  o_Code :: bytes
  o_Storage :: "StorageObject list"

definition store_of :: "bytes \<times> bytes option \<Rightarrow> StorageObject" where
  "store_of e =
     (case e of
        (k, None) \<Rightarrow> \<lparr>st_Deleted = True, st_Key = k, st_Val = []\<rparr>
      | (k, Some v) \<Rightarrow> \<lparr>st_Deleted = False, st_Key = k, st_Val = v\<rparr>)"

definition object_of :: "bytes \<Rightarrow> stateObject \<Rightarrow> Object" where
  "object_of k a =
     \<lparr>o_Address = BytesToAddress k,
      o_CodeHash = BytesToHash (CodeHash (so_Account a)),
      o_Balance = Balance (so_Account a),
      o_Root = Root (so_Account a),
      o_Nonce = Nonce (so_Account a),
      o_Deleted = so_Deleted a,
      o_DirtyCode = so_DirtyCode a,
      o_Code = so_Code a,
      o_Storage =
        (if so_Deleted a then []
         else (case so_Txn a of None \<Rightarrow> [] | Some tr \<Rightarrow> map store_of (Walk tr)))\<rparr>"

fun commit_walk :: "(bytes \<times> jvalue) list \<Rightarrow> Object list" where
  "commit_walk [] = []"
| "commit_walk ((k, v) # es) =
     (case v of
        JObj a \<Rightarrow> object_of k a # commit_walk es
      | _ \<Rightarrow> commit_walk es)"

definition Commit :: "Txn \<Rightarrow> Object list" where
  "Commit t = (let x = txn t in commit_walk (Walk x))"

section \<open>Sequences of operations\<close>

text \<open>
  The operations of a transaction that change it, as a datatype, and the run
  of a list of them; a panic ends the run. \<^verbatim>\<open>Commit\<close> is not among them.
\<close>

datatype op =
  OpSnapshot
| OpRevertToSnapshot int
| OpAddSealingReward address int
| OpAddBalance address int
| OpSubBalance address int
| OpSetBalance address int
| OpEmitLog address "hash list" bytes
| OpSetStorage address hash hash
| OpSetState address hash hash
| OpIncrNonce address
| OpSetNonce address "64 word"
| OpSetCode address bytes
| OpSuicide address
| OpAddRefund "64 word"
| OpSubRefund "64 word"
| OpLogs
| OpTouchAccount address
| OpCreateAccount address
| OpCleanDeleteObjects bool

definition discard :: "panic + 'r \<times> Txn \<Rightarrow> panic + Txn" where
  "discard r = (case r of Inl p \<Rightarrow> Inl p | Inr (_, t) \<Rightarrow> Inr t)"

fun apply_op :: "(bytes \<Rightarrow> bytes) \<Rightarrow> Txn \<Rightarrow> op \<Rightarrow> panic + Txn" where
  "apply_op K t OpSnapshot = Inr (snd (Snapshot t))"
| "apply_op K t (OpRevertToSnapshot sid) = RevertToSnapshot t sid"
| "apply_op K t (OpAddSealingReward a v) = AddSealingReward t a v"
| "apply_op K t (OpAddBalance a v) = AddBalance t a v"
| "apply_op K t (OpSubBalance a v) = discard (SubBalance t a v)"
| "apply_op K t (OpSetBalance a v) = SetBalance t a v"
| "apply_op K t (OpEmitLog a topics data) = EmitLog t a topics data"
| "apply_op K t (OpSetStorage a k v) = discard (SetStorage t a k v)"
| "apply_op K t (OpSetState a k v) = SetState t a k v"
| "apply_op K t (OpIncrNonce a) = IncrNonce t a"
| "apply_op K t (OpSetNonce a n) = SetNonce t a n"
| "apply_op K t (OpSetCode a code) = SetCode K t a code"
| "apply_op K t (OpSuicide a) = discard (Suicide t a)"
| "apply_op K t (OpAddRefund g) = AddRefund t g"
| "apply_op K t (OpSubRefund g) = SubRefund t g"
| "apply_op K t OpLogs = discard (Logs t)"
| "apply_op K t (OpTouchAccount a) = TouchAccount t a"
| "apply_op K t (OpCreateAccount a) = CreateAccount t a"
| "apply_op K t (OpCleanDeleteObjects b) = CleanDeleteObjects t b"

fun run_ops :: "(bytes \<Rightarrow> bytes) \<Rightarrow> Txn \<Rightarrow> op list \<Rightarrow> panic + Txn" where
  "run_ops K t [] = Inr t"
| "run_ops K t (x # xs) = (case apply_op K t x of Inl p \<Rightarrow> Inl p | Inr t' \<Rightarrow> run_ops K t' xs)"

section \<open>Well-formed journals\<close>

text \<open>
  What every journal built by the operations satisfies: the entries are in
  strictly ascending key order, as in any radix tree; a state object sits
  under a 20-byte key and its slot overlay is itself in key order; the log
  slice and the refund counter sit under their sentinel keys.
\<close>

definition wf_entry :: "bytes \<times> jvalue \<Rightarrow> bool" where
  "wf_entry e =
     (case snd e of
        JObj obj \<Rightarrow> length (fst e) = 20 \<and> (case so_Txn obj of None \<Rightarrow> True | Some tr \<Rightarrow> sorted_tree tr)
      | JLogs l \<Rightarrow> fst e = logIndex
      | JRefund r \<Rightarrow> fst e = refundIndex)"

definition wf_journal :: "jvalue tree \<Rightarrow> bool" where
  "wf_journal j = (sorted_tree j \<and> list_all wf_entry j)"

definition wf_obj :: "stateObject \<Rightarrow> bool" where
  "wf_obj obj = (case so_Txn obj of None \<Rightarrow> True | Some tr \<Rightarrow> sorted_tree tr)"

definition wf_txn :: "Txn \<Rightarrow> bool" where
  "wf_txn t = (wf_journal (txn t) \<and> list_all wf_journal (snapshots t))"

section \<open>Auxiliary notions for the proofs\<close>

text \<open>
  The object a reader sees at an address (\<open>None\<close> also when the lookup
  panics), and the object that a creating \<^verbatim>\<open>upsertAccount\<close> hands to its
  callback.
\<close>

definition visible :: "Txn \<Rightarrow> address \<Rightarrow> stateObject option" where
  "visible t a = (case getStateObject t a of Inl p \<Rightarrow> None | Inr got \<Rightarrow> got)"

definition subject :: "Txn \<Rightarrow> address \<Rightarrow> stateObject" where
  "subject t a = (case visible t a of None \<Rightarrow> newStateObject | Some obj \<Rightarrow> obj)"

definition put_refund :: "Txn \<Rightarrow> 64 word \<Rightarrow> Txn" where
  "put_refund t r = t\<lparr>txn := Insert (txn t) refundIndex (JRefund r)\<rparr>"

definition mark :: "jvalue \<Rightarrow> jvalue" where
  "mark v = (case v of JObj obj \<Rightarrow> JObj (obj\<lparr>so_Deleted := True\<rparr>) | _ \<Rightarrow> v)"

definition is_JObj :: "bytes \<times> jvalue \<Rightarrow> bool" where
  "is_JObj e = (case snd e of JObj a \<Rightarrow> True | _ \<Rightarrow> False)"

definition store_spec :: "bytes \<times> bytes option \<Rightarrow> StorageObject" where
  "store_spec e = \<lparr>st_Deleted = (snd e = None), st_Key = fst e,
                    st_Val = (case snd e of None \<Rightarrow> [] | Some b \<Rightarrow> b)\<rparr>"

definition extends :: "Txn \<Rightarrow> Txn \<Rightarrow> bool" where
  "extends t t' = (snapshot t' = snapshot t \<and> rev t' = rev t
                   \<and> (\<exists>more. snapshots t' = snapshots t @ more))"

section \<open>The storage state machine, in the words of the specification\<close>

text \<open>
  The status and the refund counter after \<^verbatim>\<open>set_storage\<close> as section 4.E of
  the specification describes them, from the revision, the committed value,
  the current value and the new value of the slot. \<open>SetStorage\<close> above is
  the translation of the source; the two are compared below.
\<close>

definition legacy :: "int \<Rightarrow> bool" where
  "legacy r = (r < Constantinople \<or> r = Petersburg)"

definition spec_status :: "int \<Rightarrow> hash \<Rightarrow> hash \<Rightarrow> hash \<Rightarrow> StorageStatus" where
  "spec_status r original current new =
     (if new = current then StorageUnchanged
      else if legacy r then
        (if current = zeroHash then StorageAdded
         else if new = zeroHash then StorageDeleted
         else StorageModified)
      else if original = current then
        (if original = zeroHash then StorageAdded
         else if new = zeroHash then StorageDeleted
         else StorageModified)
      else StorageModifiedAgain)"

definition spec_refund :: "int \<Rightarrow> hash \<Rightarrow> hash \<Rightarrow> hash \<Rightarrow> 64 word \<Rightarrow> 64 word" where
  "spec_refund r original current new refund =
     (if new = current then refund
      else if legacy r then
        (if current = zeroHash then refund
         else if new = zeroHash then refund + 15000
         else refund)
      else if original = current then
        (if original = zeroHash then refund
         else if new = zeroHash then refund + 15000
         else refund)
      else
        (let refund1 =
               (if original \<noteq> zeroHash
                then (if current = zeroHash then refund - 15000
                      else if new = zeroHash then refund + 15000
                      else refund)
                else refund)
         in if new = original
            then (if original = zeroHash
                  then refund1 + (if Istanbul \<le> r then 19200 else 19800)
                  else refund1 + (if Istanbul \<le> r then 4200 else 4800))
            else refund1))"

section \<open>Example states\<close>

text \<open>
  A snapshot with one account, at address 1, with balance 100 and the value 5
  in slot 7 of its storage, and a fresh transaction over it at a given
  revision. Then three journals over it: one that holds the account with the
  suicide flag; one that holds a log slice, a refund counter and three
  objects (one with a slot overlay, one empty, one suicided and deleted); and
  the state reached by three calls of \<^verbatim>\<open>EmitLog\<close>, a snapshot and a fourth
  \<^verbatim>\<open>EmitLog\<close>.
\<close>

definition addr1 :: address where
  "addr1 = BytesToAddress [1]"

definition addr2 :: address where
  "addr2 = BytesToAddress [2]"

definition addr3 :: address where
  "addr3 = BytesToAddress [3]"

definition example_account :: Account where
  "example_account = \<lparr>Nonce = 0, Balance = 100, Root = BytesToHash [9], CodeHash = HashBytes EmptyCodeHash\<rparr>"

definition example_snapshot :: Snapshot where
  "example_snapshot =
     \<lparr>snap_GetAccount = (\<lambda>a. if a = addr1 then (Some example_account, None) else (None, None)),
      snap_GetStorage = (\<lambda>a root k. if a = addr1 \<and> root = BytesToHash [9] \<and> k = BytesToHash [7]
                                    then BytesToHash [5] else zeroHash),
      snap_GetCode = (\<lambda>h a. ([], False))\<rparr>"

definition example_txn :: "int \<Rightarrow> Txn" where
  "example_txn r = (newTxn example_snapshot)\<lparr>rev := r\<rparr>"

definition suicided_txn :: Txn where
  "suicided_txn =
     (example_txn 0)\<lparr>txn :=
        [(AddressBytes addr1,
          JObj \<lparr>so_Account = example_account, so_Code = [], so_Suicide = True,
                so_Deleted = False, so_DirtyCode = False, so_Txn = None\<rparr>)]\<rparr>"

definition busy_txn :: Txn where
  "busy_txn =
     (example_txn 0)\<lparr>txn :=
        [(logIndex, JLogs empty_slice),
         (refundIndex, JRefund 7),
         (AddressBytes addr1,
          JObj \<lparr>so_Account = example_account, so_Code = [], so_Suicide = False,
                so_Deleted = False, so_DirtyCode = False,
                so_Txn = Some [(HashBytes (BytesToHash [7]), None),
                               (HashBytes (BytesToHash [8]), Some (HashBytes (BytesToHash [6])))]\<rparr>),
         (AddressBytes addr2, JObj newStateObject),
         (AddressBytes addr3,
          JObj \<lparr>so_Account = example_account, so_Code = [], so_Suicide = True,
                so_Deleted = True, so_DirtyCode = False,
                so_Txn = Some [(HashBytes (BytesToHash [7]), None)]\<rparr>)]\<rparr>"

definition log_of :: "byte \<Rightarrow> Log option" where
  "log_of n = Some \<lparr>log_Address = addr1, log_Topics = [], log_Data = [n]\<rparr>"

definition aliasing_prefix :: "op list" where
  "aliasing_prefix =
     [OpEmitLog addr1 [] [1], OpEmitLog addr1 [] [2], OpEmitLog addr1 [] [3],
      OpSnapshot, OpEmitLog addr1 [] [4]]"

definition aliasing_ops :: "op list" where
  "aliasing_ops = [OpRevertToSnapshot 0, OpEmitLog addr1 [] [5]]"

definition aliasing_state :: Txn where
  "aliasing_state =
     \<lparr>snapshot = example_snapshot,
      snapshots = [[(logIndex, JLogs \<lparr>sl_arr = 2, sl_len = 3, sl_cap = 4\<rparr>)]],
      txn = [(logIndex, JLogs \<lparr>sl_arr = 2, sl_len = 4, sl_cap = 4\<rparr>)],
      rev = 0,
      heap = [[log_of 1], [log_of 1, log_of 2], [log_of 1, log_of 2, log_of 3, log_of 4]]\<rparr>"

section \<open>Bytes and trees\<close>

lemma length_AddressBytes: "length (AddressBytes a) = 20"
  using AddressBytes [of a] by simp

lemma length_HashBytes: "length (HashBytes h) = 32"
  using HashBytes [of h] by simp

lemma length_right_align: "length (right_align n b) = n"
  by (simp add: right_align_def)

lemma right_align_id: "length b = n \<Longrightarrow> right_align n b = b"
  by (simp add: right_align_def)

lemma HashBytes_BytesToHash: "HashBytes (BytesToHash b) = right_align 32 b"
  by (simp add: BytesToHash_def Abs_hash_inverse length_right_align)

lemma AddressBytes_BytesToAddress: "AddressBytes (BytesToAddress b) = right_align 20 b"
  by (simp add: BytesToAddress_def Abs_address_inverse length_right_align)

lemma BytesToHash_HashBytes: "BytesToHash (HashBytes h) = h"
  by (simp add: BytesToHash_def right_align_id length_HashBytes HashBytes_inverse)

lemma replicate_numeral: "replicate (numeral n) x = x # replicate (pred_numeral n) x"
  by (simp add: numeral_eq_Suc)

lemma logIndex_eq: "logIndex = replicate 31 0 @ [2]"
  by (simp add: logIndex_def HashBytes_BytesToHash right_align_def)

lemma refundIndex_eq: "refundIndex = replicate 31 0 @ [3]"
  by (simp add: refundIndex_def HashBytes_BytesToHash right_align_def)

lemma logIndex_neq_refundIndex: "logIndex \<noteq> refundIndex"
  by (simp add: logIndex_eq refundIndex_eq)

lemma BytesToHash_eq_iff: "BytesToHash b = BytesToHash c \<longleftrightarrow> right_align 32 b = right_align 32 c"
  by (simp add: BytesToHash_def Abs_hash_inject length_right_align)

lemma Get_Insert: "Get (Insert t k v) k' = (if k' = k then Some v else Get t k')"
  by (induction t) auto

lemma Get_Delete: "Get (Delete t k) k' = (if k' = k then None else Get t k')"
  by (induction t) auto

lemma set_Insert: "set (Insert t k v) \<subseteq> insert (k, v) (set t)"
  by (induction t) (auto split: if_splits)

lemma set_Delete: "set (Delete t k) \<subseteq> set t"
  by (induction t) (auto split: if_splits)

lemma sorted_Insert: "sorted_tree t \<Longrightarrow> sorted_tree (Insert t k v)"
  unfolding sorted_tree_def
proof (induction t)
  case Nil
  then show ?case by simp
next
  case (Cons e t)
  obtain k' v' where e: "e = (k', v')" by (cases e)
  have "\<And>x. x \<in> set (Insert t k v) \<Longrightarrow> \<not> k < k' \<Longrightarrow> k \<noteq> k' \<Longrightarrow> k' < fst x"
    using set_Insert [of t k v] Cons.prems e by auto
  with Cons e show ?case by auto
qed

lemma sorted_Delete: "sorted_tree t \<Longrightarrow> sorted_tree (Delete t k)"
  unfolding sorted_tree_def
proof (induction t)
  case Nil
  then show ?case by simp
next
  case (Cons e t)
  then show ?case using set_Delete [of t k] by (cases e) auto
qed

section \<open>Well-formed journals: lookups do not panic\<close>

lemma Get_in_set: "Get t k = Some v \<Longrightarrow> (k, v) \<in> set t"
  by (induction t) (auto split: if_splits)

lemma wf_journal_entry: "wf_journal j \<Longrightarrow> Get j k = Some v \<Longrightarrow> wf_entry (k, v)"
  by (auto simp: wf_journal_def list_all_iff dest: Get_in_set)

lemma length_logIndex: "length logIndex = 32"
  by (simp add: logIndex_def length_HashBytes)

lemma length_refundIndex: "length refundIndex = 32"
  by (simp add: refundIndex_def length_HashBytes)

lemma AddressBytes_neq_sentinel: "AddressBytes a \<noteq> logIndex" "AddressBytes a \<noteq> refundIndex"
  "logIndex \<noteq> AddressBytes a" "refundIndex \<noteq> AddressBytes a"
  using length_AddressBytes [of a] length_logIndex length_refundIndex by auto

lemma wf_Get_address:
  assumes "wf_journal j" "Get j (AddressBytes a) = Some v"
  obtains obj where "v = JObj obj"
  using wf_journal_entry [OF assms] AddressBytes_neq_sentinel [of a]
  by (cases v) (auto simp: wf_entry_def)

lemma wf_Get_refundIndex:
  assumes "wf_journal j" "Get j refundIndex = Some v"
  obtains r where "v = JRefund r"
  using wf_journal_entry [OF assms] logIndex_neq_refundIndex length_refundIndex
  by (cases v) (auto simp: wf_entry_def)

lemma Copy_id: "Copy obj = obj"
  by (simp add: Copy_def Account_Copy_def)

lemma getStateObject_wf:
  "wf_journal (txn t) \<Longrightarrow> getStateObject t a = Inr (visible t a)"
  unfolding visible_def getStateObject_def
  by (auto split: option.splits prod.splits jvalue.splits elim: wf_Get_address)

lemma GetRefund_wf:
  "wf_journal (txn t) \<Longrightarrow> \<exists>r. GetRefund t = Inr r"
  unfolding GetRefund_def
  by (auto split: option.splits jvalue.splits elim: wf_Get_refundIndex)

lemma getStateObject_Insert_address:
  "getStateObject (t\<lparr>txn := Insert (txn t) (AddressBytes a) (JObj obj)\<rparr>) a' =
     (if a' = a then (if so_Deleted obj then Inr None else Inr (Some obj)) else getStateObject t a')"
  by (simp add: getStateObject_def Get_Insert AddressBytes_inject Copy_id cong: option.case_cong)

lemma getStateObject_Insert_refundIndex:
  "getStateObject (t\<lparr>txn := Insert (txn t) refundIndex v\<rparr>) a = getStateObject t a"
  by (simp add: getStateObject_def Get_Insert AddressBytes_neq_sentinel cong: option.case_cong)

lemma GetRefund_Insert_address:
  "GetRefund (t\<lparr>txn := Insert (txn t) (AddressBytes a) v\<rparr>) = GetRefund t"
  by (simp add: GetRefund_def Get_Insert AddressBytes_neq_sentinel)

lemma GetRefund_Insert_refundIndex:
  "GetRefund (t\<lparr>txn := Insert (txn t) refundIndex (JRefund r)\<rparr>) = Inr r"
  by (simp add: GetRefund_def Get_Insert)

lemma list_all_Insert: "list_all P t \<Longrightarrow> P (k, v) \<Longrightarrow> list_all P (Insert t k v)"
  using set_Insert [of t k v] by (auto simp: list_all_iff)

lemma list_all_Delete: "list_all P t \<Longrightarrow> list_all P (Delete t k)"
  using set_Delete [of t k] by (auto simp: list_all_iff)

lemma wf_journal_Insert: "wf_journal j \<Longrightarrow> wf_entry (k, v) \<Longrightarrow> wf_journal (Insert j k v)"
  by (simp add: wf_journal_def sorted_Insert list_all_Insert)

lemma wf_journal_Delete: "wf_journal j \<Longrightarrow> wf_journal (Delete j k)"
  by (simp add: wf_journal_def sorted_Delete list_all_Delete)

lemma wf_entry_obj: "wf_entry (AddressBytes a, JObj obj) = wf_obj obj"
  by (simp add: wf_entry_def wf_obj_def length_AddressBytes)

lemma wf_entry_refund: "wf_entry (refundIndex, JRefund r)"
  by (simp add: wf_entry_def)

lemma wf_entry_logs: "wf_entry (logIndex, JLogs l)"
  by (simp add: wf_entry_def)

lemma visible_wf_obj: "wf_journal (txn t) \<Longrightarrow> visible t a = Some obj \<Longrightarrow> wf_obj obj"
  unfolding visible_def getStateObject_def
  by (auto simp: Copy_id wf_obj_def wf_entry_def dest!: wf_journal_entry
           split: option.splits prod.splits jvalue.splits if_splits)

lemma visible_not_Deleted: "visible t a = Some obj \<Longrightarrow> \<not> so_Deleted obj"
  unfolding visible_def getStateObject_def
  by (auto simp: Copy_id split: option.splits prod.splits jvalue.splits if_splits)

lemma modify_wf:
  "wf_journal (txn t) \<Longrightarrow>
   modify t a g = Inr (t\<lparr>txn := Insert (txn t) (AddressBytes a) (JObj (g (subject t a)))\<rparr>)"
  by (simp add: modify_def upsertAccount_def getStateObject_wf deref_def subject_def
           split: option.splits)

lemma subject_not_Deleted: "\<not> so_Deleted (subject t a)"
  by (auto simp: subject_def newStateObject_def visible_not_Deleted split: option.splits)

lemma subject_wf_obj: "wf_journal (txn t) \<Longrightarrow> wf_obj (subject t a)"
  by (auto simp: subject_def visible_wf_obj split: option.splits) (simp add: wf_obj_def newStateObject_def)

lemma GetBalance_wf: "wf_journal (txn t) \<Longrightarrow> GetBalance t a = Inr (Balance (so_Account (subject t a)))"
  by (simp add: GetBalance_def getStateObject_wf subject_def newStateObject_def split: option.splits)

lemma so_Deleted_set_Balance: "so_Deleted (set_Balance b obj) = so_Deleted obj"
  by (simp add: set_Balance_def)

lemma Balance_set_Balance: "Balance (so_Account (set_Balance b obj)) = b"
  by (simp add: set_Balance_def)

lemma GetBalance_Insert_address:
  "GetBalance (t\<lparr>txn := Insert (txn t) (AddressBytes a) (JObj obj)\<rparr>) a =
     (if so_Deleted obj then Inr 0 else Inr (Balance (so_Account obj)))"
  by (simp add: GetBalance_def getStateObject_Insert_address)

section \<open>Storage writes and the refund counter\<close>

lemma sorted_tree_Nil: "sorted_tree []" "sorted_tree [e]"
  by (simp_all add: sorted_tree_def)

lemma GetState_Insert_address:
  "GetState (t\<lparr>txn := Insert (txn t) (AddressBytes a) (JObj obj)\<rparr>) a k =
     (if so_Deleted obj then Inr zeroHash
      else (case (case so_Txn obj of None \<Rightarrow> None | Some tr \<Rightarrow> Get tr (HashBytes k)) of
              Some None \<Rightarrow> Inr zeroHash
            | Some (Some val) \<Rightarrow> Inr (BytesToHash val)
            | None \<Rightarrow> Inr (snap_GetStorage (snapshot t) a (Root (so_Account obj)) k)))"
  by (simp add: GetState_def getStateObject_Insert_address cong: option.case_cong)

lemma GetCommittedState_Insert_address:
  "GetCommittedState (t\<lparr>txn := Insert (txn t) (AddressBytes a) (JObj obj)\<rparr>) a k =
     (if so_Deleted obj then Inr zeroHash
      else Inr (snap_GetStorage (snapshot t) a (Root (so_Account obj)) k))"
  by (simp add: GetCommittedState_def getStateObject_Insert_address)

lemma GetCommittedState_wf:
  "wf_journal (txn t) \<Longrightarrow> GetCommittedState t a k =
     Inr (case visible t a of None \<Rightarrow> zeroHash
          | Some obj \<Rightarrow> snap_GetStorage (snapshot t) a (Root (so_Account obj)) k)"
  by (simp add: GetCommittedState_def getStateObject_wf split: option.splits)

lemma Exist_wf: "wf_journal (txn t) \<Longrightarrow> Exist t a = Inr (visible t a \<noteq> None)"
  by (simp add: Exist_def getStateObject_wf)

lemma SetState_post:
  assumes wf: "wf_journal (txn t)"
  shows "\<exists>t1. SetState t a k v = Inr t1 \<and> wf_journal (txn t1) \<and> GetState t1 a k = Inr v
           \<and> GetRefund t1 = GetRefund t \<and> rev t1 = rev t \<and> snapshot t1 = snapshot t
           \<and> Exist t1 a = Inr True
           \<and> (Exist t a = Inr True \<longrightarrow> GetCommittedState t1 a k = GetCommittedState t a k)"
proof -
  let ?g = "\<lambda>object.
       let tr = (case so_Txn object of None \<Rightarrow> iradix_New | Some tr \<Rightarrow> tr)
       in if v = zeroHash
          then object\<lparr>so_Txn := Some (Insert tr (HashBytes k) None)\<rparr>
          else object\<lparr>so_Txn := Some (Insert tr (HashBytes k) (Some (HashBytes v)))\<rparr>"
  let ?obj = "?g (subject t a)"
  let ?t1 = "t\<lparr>txn := Insert (txn t) (AddressBytes a) (JObj ?obj)\<rparr>"
  have eq: "SetState t a k v = Inr ?t1"
    unfolding SetState_def using wf by (rule modify_wf)
  have nd: "\<not> so_Deleted ?obj"
    using subject_not_Deleted [of t a] by (simp add: Let_def)
  have wfo: "wf_obj ?obj"
    using subject_wf_obj [OF wf, of a]
    by (auto simp: wf_obj_def Let_def iradix_New_def sorted_Insert sorted_tree_Nil split: option.splits)
  have wf1: "wf_journal (txn ?t1)"
    using wf wfo by (simp add: wf_journal_Insert wf_entry_obj)
  have gs: "GetState ?t1 a k = Inr v"
    using nd by (simp add: GetState_Insert_address Get_Insert Let_def BytesToHash_HashBytes)
  have gr: "GetRefund ?t1 = GetRefund t"
    by (simp add: GetRefund_Insert_address)
  have ex: "Exist ?t1 a = Inr True"
    using nd by (simp add: Exist_def getStateObject_Insert_address)
  have root: "Root (so_Account ?obj) = Root (so_Account (subject t a))"
    by (simp add: Let_def)
  have cs: "Exist t a = Inr True \<longrightarrow> GetCommittedState ?t1 a k = GetCommittedState t a k"
    using nd wf root
    by (auto simp: GetCommittedState_Insert_address GetCommittedState_wf Exist_wf subject_def
             simp del: Let_def split: option.splits)
  from eq wf1 gs gr ex cs show ?thesis by force
qed

lemma reads_cong:
  assumes "\<forall>a. getStateObject t' a = getStateObject t a" "snapshot t' = snapshot t"
  shows "GetState t' a k = GetState t a k" "GetCommittedState t' a k = GetCommittedState t a k"
    "Exist t' a = Exist t a" "GetBalance t' a = GetBalance t a"
  using assms by (simp_all add: GetState_def GetCommittedState_def Exist_def GetBalance_def
                    cong: option.case_cong sum.case_cong)

lemma AddRefund_eq:
  "GetRefund t = Inr r \<Longrightarrow> AddRefund t g = Inr (put_refund t (r + g))"
  by (simp add: AddRefund_def put_refund_def)

lemma SubRefund_eq:
  "GetRefund t = Inr r \<Longrightarrow> SubRefund t g = Inr (put_refund t (r - g))"
  by (simp add: SubRefund_def put_refund_def)

lemma put_refund_simps:
  "GetRefund (put_refund t r) = Inr r"
  "getStateObject (put_refund t r) a = getStateObject t a"
  "rev (put_refund t r) = rev t"
  "snapshot (put_refund t r) = snapshot t"
  "wf_journal (txn t) \<Longrightarrow> wf_journal (txn (put_refund t r))"
  by (simp_all add: put_refund_def GetRefund_Insert_refundIndex getStateObject_Insert_refundIndex
        wf_journal_Insert wf_entry_refund)

lemma put_refund_reads:
  "GetState (put_refund t r) a k = GetState t a k"
  "GetCommittedState (put_refund t r) a k = GetCommittedState t a k"
  "Exist (put_refund t r) a = Exist t a"
  "GetBalance (put_refund t r) a = GetBalance t a"
  by (rule reads_cong; simp add: put_refund_simps)+

lemma GetState_wf: "wf_journal (txn t) \<Longrightarrow> \<exists>v. GetState t a k = Inr v"
  by (auto simp: GetState_def getStateObject_wf split: option.splits)

text \<open>
  The source's \<^verbatim>\<open>SetStorage\<close> computes the status and the refund counter of
  the specification's state machine, on every well-formed journal.
\<close>

lemma SetStorage_refines:
  assumes wf: "wf_journal (txn t)"
    and cur: "GetState t a k = Inr current"
    and orig: "GetCommittedState t a k = Inr original"
    and r: "GetRefund t = Inr r"
  shows "\<exists>t'. SetStorage t a k v = Inr (spec_status (rev t) original current v, t')
            \<and> GetRefund t' = Inr (spec_refund (rev t) original current v r)
            \<and> wf_journal (txn t') \<and> GetState t' a k = Inr v
            \<and> rev t' = rev t \<and> snapshot t' = snapshot t
            \<and> (Exist t a = Inr True \<longrightarrow> Exist t' a = Inr True \<and> GetCommittedState t' a k = Inr original)"
proof (cases "current = v")
  case True
  with cur orig r wf show ?thesis
    by (simp add: SetStorage_def spec_status_def spec_refund_def)
next
  case False
  obtain t1 where t1: "SetState t a k v = Inr t1" "wf_journal (txn t1)" "GetState t1 a k = Inr v"
      "GetRefund t1 = Inr r" "rev t1 = rev t" "snapshot t1 = snapshot t" "Exist t1 a = Inr True"
      "Exist t a = Inr True \<longrightarrow> GetCommittedState t1 a k = Inr original"
    using SetState_post [OF wf, of a k v] r orig by auto
  note rf = AddRefund_eq [OF t1(4)] SubRefund_eq [OF t1(4)]
    AddRefund_eq [OF put_refund_simps(1)] SubRefund_eq [OF put_refund_simps(1)]
  show ?thesis
    using False t1 cur orig
    by (auto simp add: SetStorage_def spec_status_def spec_refund_def legacy_def isRevision_def
          Constantinople_def Petersburg_def Istanbul_def with_status_def rf
          put_refund_simps put_refund_reads Let_def)
qed

section \<open>The example states\<close>

lemma wf_journal_Nil: "wf_journal []"
  by (simp add: wf_journal_def sorted_tree_def)

lemma example_txn_simps:
  "txn (example_txn r) = []" "rev (example_txn r) = r" "snapshot (example_txn r) = example_snapshot"
  "snapshots (example_txn r) = []"
  by (simp_all add: example_txn_def newTxn_def iradix_New_def)

lemma example_getStateObject:
  "getStateObject (example_txn r) addr1 =
     Inr (Some \<lparr>so_Account = example_account, so_Code = [], so_Suicide = False,
                so_Deleted = False, so_DirtyCode = False, so_Txn = None\<rparr>)"
  by (simp add: getStateObject_def example_txn_simps example_snapshot_def Account_Copy_def)

lemma HashBytes_single: "HashBytes (BytesToHash [b]) = replicate 31 0 @ [b]"
  by (simp add: HashBytes_BytesToHash right_align_def)

lemma BytesToHash_single_eq: "BytesToHash [b] = BytesToHash [c] \<longleftrightarrow> b = c"
  by (simp add: BytesToHash_eq_iff right_align_def)

lemma zeroHash_single: "zeroHash = BytesToHash [0]"
proof -
  have "right_align 32 [] = right_align 32 [0::byte]"
    by (simp add: right_align_def replicate_append_same replicate_numeral)
  then show ?thesis by (simp add: zeroHash_def BytesToHash_eq_iff)
qed

lemma GetCommittedState_ex: "wf_journal (txn t) \<Longrightarrow> \<exists>v. GetCommittedState t a k = Inr v"
  by (simp add: GetCommittedState_wf)

section \<open>Account lifecycle\<close>

lemma visible_Insert_address:
  "visible (t\<lparr>txn := Insert (txn t) (AddressBytes a) (JObj obj)\<rparr>) a = (if so_Deleted obj then None else Some obj)"
  by (simp add: visible_def getStateObject_Insert_address)

lemma HasSuicided_wf: "wf_journal (txn t) \<Longrightarrow>
  HasSuicided t a = Inr (case visible t a of None \<Rightarrow> False | Some obj \<Rightarrow> so_Suicide obj)"
  by (simp add: HasSuicided_def getStateObject_wf split: option.splits)

lemma GetBalance_visible: "wf_journal (txn t) \<Longrightarrow> visible t a = Some obj \<Longrightarrow>
  GetBalance t a = Inr (Balance (so_Account obj))"
  by (simp add: GetBalance_def getStateObject_wf)

lemma wf_obj_set_Balance: "wf_obj (set_Balance b obj) = wf_obj obj"
  by (simp add: wf_obj_def set_Balance_def)

lemma modify_post:
  assumes wf: "wf_journal (txn t)" and g: "wf_obj (g (subject t a))" "\<not> so_Deleted (g (subject t a))"
  shows "\<exists>t'. modify t a g = Inr t' \<and> wf_journal (txn t') \<and> visible t' a = Some (g (subject t a))"
  using assms by (simp add: modify_wf wf_journal_Insert wf_entry_obj visible_Insert_address)

lemma Suicide_post:
  assumes wf: "wf_journal (txn t)" and v: "visible t a = Some obj"
  shows "\<exists>t'. Suicide t a = Inr (\<not> so_Suicide obj, t') \<and> wf_journal (txn t')
            \<and> visible t' a = Some (set_Balance 0 (obj\<lparr>so_Suicide := True\<rparr>))"
proof -
  have eq: "so_Suicide obj \<Longrightarrow> obj\<lparr>so_Suicide := True\<rparr> = obj"
    by simp
  have nd: "\<not> so_Deleted obj"
    using v by (rule visible_not_Deleted)
  have wfo: "wf_obj obj"
    using wf v by (rule visible_wf_obj)
  have wfo': "wf_obj (set_Balance 0 (obj\<lparr>so_Suicide := True\<rparr>))"
    using wfo by (simp add: wf_obj_def set_Balance_def)
  show ?thesis
    using nd wfo wfo' wf
    by (auto simp: Suicide_def upsertAccount_def getStateObject_wf [OF wf] v eq
          wf_journal_Insert wf_entry_obj visible_Insert_address so_Deleted_set_Balance
          wf_obj_set_Balance)
qed

lemma example_wf: "wf_journal (txn (example_txn r))"
  by (simp add: example_txn_simps wf_journal_Nil)

lemma example_Exist: "Exist (example_txn r) addr1 = Inr True"
  by (simp add: Exist_def example_getStateObject)

lemma example_GetBalance: "GetBalance (example_txn r) addr1 = Inr 100"
  by (simp add: GetBalance_def example_getStateObject example_account_def)

lemma example_GetState:
  "GetState (example_txn r) addr1 k = Inr (if k = BytesToHash [7] then BytesToHash [5] else zeroHash)"
  "GetCommittedState (example_txn r) addr1 k = Inr (if k = BytesToHash [7] then BytesToHash [5] else zeroHash)"
  by (simp_all add: GetState_def GetCommittedState_def example_getStateObject example_txn_simps
        example_snapshot_def example_account_def)

lemma AddressBytes_single: "AddressBytes (BytesToAddress [b]) = replicate 19 0 @ [b]"
  by (simp add: AddressBytes_BytesToAddress right_align_def)

lemma BytesToAddress_single_eq: "BytesToAddress [b] = BytesToAddress [c] \<longleftrightarrow> b = c"
  using AddressBytes_single [of b] AddressBytes_single [of c]
  by (metis append1_eq_conv)

lemma suicided_wf: "wf_journal (txn suicided_txn)"
  by (simp add: suicided_txn_def wf_journal_def sorted_tree_def wf_entry_def length_AddressBytes)

section \<open>Marking and committing\<close>

lemma Get_of_sorted: "sorted_tree j \<Longrightarrow> (k, v) \<in> set j \<Longrightarrow> Get j k = Some v"
  unfolding sorted_tree_def by (induction j) auto

lemma mark_deleted_Get:
  assumes "\<forall>k \<in> set ks. \<exists>obj. Get j k = Some (JObj obj)"
  shows "\<exists>j'. mark_deleted j ks = Inr j'
           \<and> (\<forall>k. Get j' k = (if k \<in> set ks then map_option mark (Get j k) else Get j k))"
  using assms
proof (induction ks arbitrary: j)
  case Nil
  then show ?case by simp
next
  case (Cons k ks)
  from Cons.prems obtain obj where obj: "Get j k = Some (JObj obj)"
    by auto
  let ?j1 = "Insert j k (JObj (obj\<lparr>so_Deleted := True\<rparr>))"
  have "\<forall>k' \<in> set ks. \<exists>obj'. Get ?j1 k' = Some (JObj obj')"
    using Cons.prems by (simp add: Get_Insert)
  from Cons.IH [OF this] obtain j' where j':
    "mark_deleted ?j1 ks = Inr j'"
    "\<And>x. Get j' x = (if x \<in> set ks then map_option mark (Get ?j1 x) else Get ?j1 x)"
    by blast
  have "mark_deleted j (k # ks) = Inr j'"
    by (simp add: obj Copy_id j'(1))
  moreover have "Get j' x = (if x \<in> set (k # ks) then map_option mark (Get j x) else Get j x)" for x
    by (simp add: j'(2) Get_Insert obj mark_def)
  ultimately show ?case by blast
qed

lemma to_remove_keys:
  assumes "sorted_tree j"
  shows "k \<in> set (map fst (filter (to_remove de) j)) \<longleftrightarrow>
           (\<exists>obj. Get j k = Some (JObj obj) \<and> (so_Suicide obj \<or> Empty_obj obj \<and> de))"
proof
  assume "k \<in> set (map fst (filter (to_remove de) j))"
  then obtain v where v: "(k, v) \<in> set j" "to_remove de (k, v)"
    by auto
  then show "\<exists>obj. Get j k = Some (JObj obj) \<and> (so_Suicide obj \<or> Empty_obj obj \<and> de)"
    using Get_of_sorted [OF assms v(1)] by (cases v) (auto simp: to_remove_def)
next
  assume "\<exists>obj. Get j k = Some (JObj obj) \<and> (so_Suicide obj \<or> Empty_obj obj \<and> de)"
  then obtain obj where "Get j k = Some (JObj obj)" "so_Suicide obj \<or> Empty_obj obj \<and> de"
    by blast
  then have "(k, JObj obj) \<in> set j" "to_remove de (k, JObj obj)"
    by (auto simp: to_remove_def dest: Get_in_set)
  then show "k \<in> set (map fst (filter (to_remove de) j))"
    by force
qed

lemma commit_walk_addresses:
  "list_all wf_entry j \<Longrightarrow>
   map (\<lambda>ob. AddressBytes (o_Address ob)) (commit_walk j) = map fst (filter is_JObj j)"
proof (induction j)
  case Nil
  then show ?case by simp
next
  case (Cons e j)
  obtain k v where e: "e = (k, v)" by (cases e)
  show ?case
  proof (cases v)
    case (JObj a)
    with Cons.prems e have "length k = 20"
      by (simp add: wf_entry_def)
    then have "AddressBytes (BytesToAddress k) = k"
      by (simp add: AddressBytes_BytesToAddress right_align_id)
    with Cons e JObj show ?thesis
      by (simp add: is_JObj_def object_of_def)
  qed (use Cons e in \<open>simp_all add: is_JObj_def\<close>)
qed

lemma sorted_keys_filter:
  "sorted_wrt (<) (map fst j) \<Longrightarrow> sorted_wrt (<) (map fst (filter P j))"
  by (induction j) auto

lemma set_commit_walk:
  "set (commit_walk j) = {object_of k a | k a. (k, JObj a) \<in> set j}"
proof (induction j)
  case Nil
  then show ?case by simp
next
  case (Cons e j)
  obtain k v where e: "e = (k, v)" by (cases e)
  show ?case
    using Cons e by (cases v) auto
qed

lemma commit_walk_Delete:
  "\<forall>a. (k, JObj a) \<notin> set j \<Longrightarrow> commit_walk (Delete j k) = commit_walk j"
proof (induction j)
  case Nil
  then show ?case by simp
next
  case (Cons e j)
  obtain k' v where e: "e = (k', v)" by (cases e)
  show ?case
    using Cons e by (cases v) auto
qed

lemma wf_no_object_at_sentinel:
  assumes "wf_journal j" "(k, JObj a) \<in> set j"
  shows "k \<noteq> logIndex" "k \<noteq> refundIndex"
proof -
  from assms have "wf_entry (k, JObj a)"
    by (auto simp: wf_journal_def list_all_iff)
  then have "length k = 20"
    by (simp add: wf_entry_def)
  then show "k \<noteq> logIndex" "k \<noteq> refundIndex"
    using length_logIndex length_refundIndex by auto
qed

lemma store_of_spec: "store_of = store_spec"
  by (rule ext) (auto simp: store_of_def store_spec_def split: option.splits)

lemma busy_txn_simps:
  "txn busy_txn =
        [(logIndex, JLogs empty_slice),
         (refundIndex, JRefund 7),
         (AddressBytes addr1,
          JObj \<lparr>so_Account = example_account, so_Code = [], so_Suicide = False,
                so_Deleted = False, so_DirtyCode = False,
                so_Txn = Some [(HashBytes (BytesToHash [7]), None),
                               (HashBytes (BytesToHash [8]), Some (HashBytes (BytesToHash [6])))]\<rparr>),
         (AddressBytes addr2, JObj newStateObject),
         (AddressBytes addr3,
          JObj \<lparr>so_Account = example_account, so_Code = [], so_Suicide = True,
                so_Deleted = True, so_DirtyCode = False,
                so_Txn = Some [(HashBytes (BytesToHash [7]), None)]\<rparr>)]"
  by (simp add: busy_txn_def)

lemma busy_wf: "wf_journal (txn busy_txn)"
  by (simp add: busy_txn_simps wf_journal_def sorted_tree_def wf_entry_def length_AddressBytes
        newStateObject_def logIndex_eq refundIndex_eq addr1_def addr2_def addr3_def
        AddressBytes_single HashBytes_single replicate_numeral)

lemma busy_Get:
  "Get (txn busy_txn) (AddressBytes addr2) = Some (JObj newStateObject)"
  "Get (txn busy_txn) refundIndex = Some (JRefund 7)"
  "Get (txn busy_txn) logIndex = Some (JLogs empty_slice)"
  by (simp_all add: busy_txn_simps AddressBytes_neq_sentinel logIndex_neq_refundIndex
        AddressBytes_inject addr1_def addr2_def BytesToAddress_single_eq)

lemma BytesToAddress_AddressBytes: "BytesToAddress (AddressBytes a) = a"
  by (simp add: BytesToAddress_def right_align_id length_AddressBytes AddressBytes_inverse)

lemma busy_Commit:
  "Commit busy_txn =
     [\<lparr>o_Address = addr1, o_CodeHash = EmptyCodeHash, o_Balance = 100, o_Root = BytesToHash [9],
       o_Nonce = 0, o_Deleted = False, o_DirtyCode = False, o_Code = [],
       o_Storage = [\<lparr>st_Deleted = True, st_Key = HashBytes (BytesToHash [7]), st_Val = []\<rparr>,
                    \<lparr>st_Deleted = False, st_Key = HashBytes (BytesToHash [8]),
                       st_Val = HashBytes (BytesToHash [6])\<rparr>]\<rparr>,
      \<lparr>o_Address = addr2, o_CodeHash = EmptyCodeHash, o_Balance = 0, o_Root = EmptyStateHash,
       o_Nonce = 0, o_Deleted = False, o_DirtyCode = False, o_Code = [], o_Storage = []\<rparr>,
      \<lparr>o_Address = addr3, o_CodeHash = EmptyCodeHash, o_Balance = 100, o_Root = BytesToHash [9],
       o_Nonce = 0, o_Deleted = True, o_DirtyCode = False, o_Code = [], o_Storage = []\<rparr>]"
  by (simp add: Commit_def Walk_def busy_txn_simps object_of_def store_of_def example_account_def
        newStateObject_def BytesToAddress_AddressBytes BytesToHash_HashBytes)

section \<open>What every operation preserves\<close>

lemma extends_refl: "extends t t"
  by (simp add: extends_def)

lemma extends_trans: "extends t t' \<Longrightarrow> extends t' t'' \<Longrightarrow> extends t t''"
  by (auto simp: extends_def)

lemma extends_update: "extends t (t\<lparr>txn := j\<rparr>)" "extends t (t\<lparr>txn := j, heap := h\<rparr>)"
  by (simp_all add: extends_def)

lemma upsertAccount_extends: "upsertAccount t a c f = Inr (r, t') \<Longrightarrow> extends t t'"
  by (auto simp: upsertAccount_def Let_def extends_def split: sum.splits option.splits prod.splits)

lemma modify_extends: "modify t a g = Inr t' \<Longrightarrow> extends t t'"
  by (auto simp: modify_def split: sum.splits prod.splits dest: upsertAccount_extends)

lemma AddRefund_extends: "AddRefund t g = Inr t' \<Longrightarrow> extends t t'"
  by (auto simp: AddRefund_def extends_def split: sum.splits)

lemma SubRefund_extends: "SubRefund t g = Inr t' \<Longrightarrow> extends t t'"
  by (auto simp: SubRefund_def extends_def split: sum.splits)

lemma SetState_extends: "SetState t a k v = Inr t' \<Longrightarrow> extends t t'"
  unfolding SetState_def by (rule modify_extends)

lemma with_status_Inr: "with_status s r = Inr (s', t') \<longleftrightarrow> s' = s \<and> r = Inr t'"
  by (auto simp: with_status_def split: sum.splits)

lemma SetStorage_extends:
  assumes "SetStorage t a k v = Inr (s, t')"
  shows "extends t t'"
proof (cases "GetState t a k = Inr v")
  case True
  with assms show ?thesis by (simp add: SetStorage_def extends_refl)
next
  case False
  with assms obtain t1 where t1: "SetState t a k v = Inr t1"
    by (auto simp: SetStorage_def Let_def split: sum.splits if_splits)
  have e1: "extends t t1"
    using t1 by (rule SetState_extends)
  have step: "extends t1 t2" if "t2 = t1 \<or> AddRefund t1 g = Inr t2 \<or> SubRefund t1 g = Inr t2" for t1 t2 g
    using that by (auto simp: extends_refl dest: AddRefund_extends SubRefund_extends)
  from assms False t1 have "\<exists>t2 g g'. (t2 = t1 \<or> AddRefund t1 g = Inr t2 \<or> SubRefund t1 g = Inr t2)
        \<and> (t' = t2 \<or> AddRefund t2 g' = Inr t')"
    by (auto simp: SetStorage_def Let_def with_status_Inr split: sum.splits if_splits)
  then obtain t2 g g' where "t2 = t1 \<or> AddRefund t1 g = Inr t2 \<or> SubRefund t1 g = Inr t2"
      "t' = t2 \<or> AddRefund t2 g' = Inr t'"
    by blast
  then have "extends t1 t2" "extends t2 t'"
    using step by blast+
  with e1 show ?thesis by (blast intro: extends_trans)
qed

lemma apply_op_extends: "apply_op K t x = Inr t' \<Longrightarrow> extends t t'"
proof (cases x)
  case OpSnapshot
  assume "apply_op K t x = Inr t'"
  with OpSnapshot show ?thesis by (auto simp: Snapshot_def Let_def extends_def)
next
  case (OpRevertToSnapshot sid)
  assume "apply_op K t x = Inr t'"
  with OpRevertToSnapshot show ?thesis
    by (auto simp: RevertToSnapshot_def extends_def split: if_splits)
next
  case (OpEmitLog a topics data)
  assume "apply_op K t x = Inr t'"
  with OpEmitLog show ?thesis
    by (auto simp: EmitLog_def Let_def extends_def split: sum.splits option.splits jvalue.splits prod.splits)
next
  case (OpSetStorage a k v)
  assume "apply_op K t x = Inr t'"
  with OpSetStorage show ?thesis
    by (auto simp: discard_def split: sum.splits prod.splits dest: SetStorage_extends)
next
  case (OpSubBalance a v)
  assume "apply_op K t x = Inr t'"
  with OpSubBalance show ?thesis
    by (auto simp: discard_def SubBalance_def extends_refl split: sum.splits prod.splits if_splits
             dest: modify_extends)
next
  case (OpSuicide a)
  assume "apply_op K t x = Inr t'"
  with OpSuicide show ?thesis
    by (auto simp: discard_def Suicide_def split: sum.splits prod.splits dest: upsertAccount_extends)
next
  case OpLogs
  assume "apply_op K t x = Inr t'"
  with OpLogs show ?thesis
    by (auto simp: discard_def Logs_def extends_def split: sum.splits option.splits jvalue.splits)
next
  case (OpTouchAccount a)
  assume "apply_op K t x = Inr t'"
  with OpTouchAccount show ?thesis
    by (auto simp: TouchAccount_def split: sum.splits prod.splits dest: upsertAccount_extends)
next
  case (OpCreateAccount a)
  assume "apply_op K t x = Inr t'"
  with OpCreateAccount show ?thesis
    by (auto simp: CreateAccount_def Let_def extends_def split: sum.splits)
next
  case (OpCleanDeleteObjects b)
  assume "apply_op K t x = Inr t'"
  with OpCleanDeleteObjects show ?thesis
    by (auto simp: CleanDeleteObjects_def Let_def extends_def split: sum.splits)
qed (auto simp: AddSealingReward_def AddBalance_def SetBalance_def IncrNonce_def SetNonce_def
       SetCode_def dest: modify_extends SetState_extends AddRefund_extends SubRefund_extends)

lemma run_ops_extends: "run_ops K t xs = Inr t' \<Longrightarrow> extends t t'"
proof (induction xs arbitrary: t)
  case Nil
  then show ?case by (simp add: extends_refl)
next
  case (Cons x xs)
  then show ?case
    by (auto split: sum.splits dest: apply_op_extends intro: extends_trans)
qed

text \<open>
  After a snapshot and any run of operations that returns, reverting to the
  snapshot succeeds and restores the journal: every account, with its
  balance, nonce, code, storage and flags, and the refund counter read as
  before the run.
\<close>

lemma Snapshot_revert_journal:
  assumes "run_ops K (snd (Snapshot t)) ops = Inr t'"
  shows "\<exists>t''. RevertToSnapshot t' (fst (Snapshot t)) = Inr t''
           \<and> txn t'' = txn t \<and> snapshot t'' = snapshot t \<and> rev t'' = rev t
           \<and> (\<forall>a. getStateObject t'' a = getStateObject t a) \<and> GetRefund t'' = GetRefund t"
proof -
  from run_ops_extends [OF assms] obtain more where
    e: "snapshot t' = snapshot t" "rev t' = rev t" "snapshots t' = (snapshots t @ [txn t]) @ more"
    by (auto simp: extends_def Snapshot_def Let_def)
  let ?t'' = "t'\<lparr>txn := txn t\<rparr>"
  have "RevertToSnapshot t' (fst (Snapshot t)) = Inr ?t''"
    by (simp add: RevertToSnapshot_def Snapshot_def Let_def e(3) nth_append)
  moreover have "getStateObject ?t'' a = getStateObject t a" for a
    by (simp add: getStateObject_def e(1) cong: option.case_cong)
  moreover have "GetRefund ?t'' = GetRefund t"
    by (simp add: GetRefund_def)
  ultimately show ?thesis
    using e(1,2) by simp
qed

section \<open>Well-formedness is an invariant\<close>

lemma wf_txn_newTxn: "wf_txn (newTxn s)"
  by (simp add: wf_txn_def newTxn_def iradix_New_def wf_journal_Nil)

lemma wf_txn_update:
  "wf_txn t \<Longrightarrow> wf_journal j \<Longrightarrow> wf_txn (t\<lparr>txn := j\<rparr>)"
  "wf_txn t \<Longrightarrow> wf_journal j \<Longrightarrow> wf_txn (t\<lparr>txn := j, heap := h\<rparr>)"
  by (simp_all add: wf_txn_def)

lemma modify_wf_txn:
  assumes "wf_txn t" "modify t a g = Inr t'" "\<And>obj. wf_obj obj \<Longrightarrow> wf_obj (g obj)"
  shows "wf_txn t'"
proof -
  have wf: "wf_journal (txn t)"
    using assms(1) by (simp add: wf_txn_def)
  have "wf_obj (g (subject t a))"
    using assms(3) subject_wf_obj [OF wf] by blast
  then show ?thesis
    using assms(1,2) wf by (auto simp: modify_wf wf_txn_update wf_journal_Insert wf_entry_obj)
qed

lemma AddRefund_wf_txn: "wf_txn t \<Longrightarrow> AddRefund t g = Inr t' \<Longrightarrow> wf_txn t'"
  by (auto simp: AddRefund_def wf_txn_update wf_txn_def wf_journal_Insert wf_entry_refund split: sum.splits)

lemma SubRefund_wf_txn: "wf_txn t \<Longrightarrow> SubRefund t g = Inr t' \<Longrightarrow> wf_txn t'"
  by (auto simp: SubRefund_def wf_txn_update wf_txn_def wf_journal_Insert wf_entry_refund split: sum.splits)

lemma wf_obj_put_slot:
  "wf_obj obj \<Longrightarrow>
   wf_obj (let tr = (case so_Txn obj of None \<Rightarrow> iradix_New | Some tr \<Rightarrow> tr)
           in if v = zeroHash
              then obj\<lparr>so_Txn := Some (Insert tr k None)\<rparr>
              else obj\<lparr>so_Txn := Some (Insert tr k (Some b))\<rparr>)"
  by (auto simp: wf_obj_def Let_def iradix_New_def sorted_Insert sorted_tree_Nil split: option.splits)

lemma SetState_wf_txn: "wf_txn t \<Longrightarrow> SetState t a k v = Inr t' \<Longrightarrow> wf_txn t'"
  unfolding SetState_def by (erule modify_wf_txn, assumption) (rule wf_obj_put_slot)

lemma SetStorage_wf_txn:
  assumes wf: "wf_txn t" and run: "SetStorage t a k v = Inr (s, t')"
  shows "wf_txn t'"
proof (cases "GetState t a k = Inr v")
  case True
  with run wf show ?thesis by (simp add: SetStorage_def)
next
  case False
  with run obtain t1 where t1: "SetState t a k v = Inr t1"
    by (auto simp: SetStorage_def Let_def split: sum.splits if_splits)
  have w1: "wf_txn t1"
    using wf t1 by (rule SetState_wf_txn)
  have step: "wf_txn t2" if "wf_txn t1" "t2 = t1 \<or> AddRefund t1 g = Inr t2 \<or> SubRefund t1 g = Inr t2" for t1 t2 g
    using that by (auto dest: AddRefund_wf_txn SubRefund_wf_txn)
  from run False t1 have "\<exists>t2 g g'. (t2 = t1 \<or> AddRefund t1 g = Inr t2 \<or> SubRefund t1 g = Inr t2)
        \<and> (t' = t2 \<or> AddRefund t2 g' = Inr t')"
    by (auto simp: SetStorage_def Let_def with_status_Inr split: sum.splits if_splits)
  then obtain t2 g g' where s: "t2 = t1 \<or> AddRefund t1 g = Inr t2 \<or> SubRefund t1 g = Inr t2"
      "t' = t2 \<or> AddRefund t2 g' = Inr t'"
    by blast
  have "wf_txn t2"
    using w1 s(1) by (rule step)
  then show ?thesis
    using s(2) step by blast
qed

lemma mark_deleted_wf:
  "wf_journal j \<Longrightarrow> mark_deleted j ks = Inr j' \<Longrightarrow> wf_journal j'"
proof (induction ks arbitrary: j)
  case Nil
  then show ?case by simp
next
  case (Cons k ks)
  from Cons.prems(2) obtain obj where obj: "Get j k = Some (JObj obj)"
      and rest: "mark_deleted (Insert j k (JObj (obj\<lparr>so_Deleted := True\<rparr>))) ks = Inr j'"
    by (auto simp: Copy_id split: option.splits jvalue.splits)
  have "wf_entry (k, JObj obj)"
    using Cons.prems(1) obj by (rule wf_journal_entry)
  then have "wf_entry (k, JObj (obj\<lparr>so_Deleted := True\<rparr>))"
    by (simp add: wf_entry_def)
  with Cons.prems(1) have "wf_journal (Insert j k (JObj (obj\<lparr>so_Deleted := True\<rparr>)))"
    by (simp add: wf_journal_Insert)
  then show ?case
    using rest by (rule Cons.IH)
qed

lemma upsertAccount_snapshots: "upsertAccount t a c f = Inr (r, t') \<Longrightarrow> snapshots t' = snapshots t"
  by (auto simp: upsertAccount_def Let_def split: sum.splits option.splits prod.splits)

lemma apply_op_wf_txn:
  assumes wf: "wf_txn t" and run: "apply_op K t x = Inr t'"
  shows "wf_txn t'"
proof -
  have wfj: "wf_journal (txn t)"
    using wf by (simp add: wf_txn_def)
  have sb: "wf_obj (set_Balance b obj)" if "wf_obj obj" for b obj
    using that by (simp add: wf_obj_set_Balance)
  show ?thesis
  proof (cases x)
    case OpSnapshot
    with wf run show ?thesis by (auto simp: Snapshot_def Let_def wf_txn_def)
  next
    case (OpRevertToSnapshot sid)
    with wf run show ?thesis
      by (auto simp: RevertToSnapshot_def wf_txn_def list_all_length split: if_splits)
  next
    case (OpAddSealingReward a v)
    have "wf_obj newStateObject" by (simp add: wf_obj_def newStateObject_def)
    with OpAddSealingReward wf run show ?thesis
      by (auto simp: AddSealingReward_def wf_obj_set_Balance elim!: modify_wf_txn)
  next
    case (OpAddBalance a v)
    with wf run show ?thesis
      by (auto simp: AddBalance_def wf_obj_set_Balance elim!: modify_wf_txn)
  next
    case (OpSubBalance a v)
    with wf run show ?thesis
      by (auto simp: discard_def SubBalance_def wf_obj_set_Balance split: sum.splits prod.splits if_splits
               elim!: modify_wf_txn)
  next
    case (OpSetBalance a v)
    with wf run show ?thesis
      by (auto simp: SetBalance_def wf_obj_set_Balance elim!: modify_wf_txn)
  next
    case (OpEmitLog a topics data)
    with wf run show ?thesis
      by (auto simp: EmitLog_def Let_def wf_txn_def wf_journal_Insert wf_entry_logs
               split: sum.splits option.splits jvalue.splits prod.splits)
  next
    case (OpSetStorage a k v)
    with wf run show ?thesis
      by (auto simp: discard_def split: sum.splits prod.splits dest: SetStorage_wf_txn)
  next
    case (OpSetState a k v)
    with wf run show ?thesis by (auto dest: SetState_wf_txn)
  next
    case (OpIncrNonce a)
    with wf run show ?thesis
      by (auto simp: IncrNonce_def wf_obj_def elim!: modify_wf_txn)
  next
    case (OpSetNonce a n)
    with wf run show ?thesis
      by (auto simp: SetNonce_def wf_obj_def elim!: modify_wf_txn)
  next
    case (OpSetCode a code)
    with wf run show ?thesis
      by (auto simp: SetCode_def wf_obj_def elim!: modify_wf_txn)
  next
    case (OpSuicide a)
    show ?thesis
    proof (cases "visible t a")
      case None
      with OpSuicide wf run show ?thesis
        by (simp add: discard_def Suicide_def upsertAccount_def getStateObject_wf [OF wfj])
    next
      case (Some obj)
      from OpSuicide run obtain s where s: "Suicide t a = Inr (s, t')"
        by (auto simp: discard_def split: sum.splits prod.splits)
      then have "snapshots t' = snapshots t"
        unfolding Suicide_def by (rule upsertAccount_snapshots)
      moreover have "wf_journal (txn t')"
        using Suicide_post [OF wfj Some] s by auto
      ultimately show ?thesis
        using wf by (simp add: wf_txn_def)
    qed
  next
    case (OpAddRefund g)
    with wf run show ?thesis by (auto dest: AddRefund_wf_txn)
  next
    case (OpSubRefund g)
    with wf run show ?thesis by (auto dest: SubRefund_wf_txn)
  next
    case OpLogs
    with wf run show ?thesis
      by (auto simp: discard_def Logs_def wf_txn_def wf_journal_Delete
               split: sum.splits option.splits jvalue.splits)
  next
    case (OpTouchAccount a)
    with wf run subject_wf_obj [OF wfj, of a] show ?thesis
      by (auto simp: TouchAccount_def upsertAccount_def getStateObject_wf [OF wfj] wf_txn_def
               wf_journal_Insert wf_entry_obj subject_def
               split: sum.splits prod.splits option.splits if_splits)
  next
    case (OpCreateAccount a)
    have "wf_obj newStateObject" by (simp add: wf_obj_def newStateObject_def)
    with OpCreateAccount wf run show ?thesis
      by (auto simp: CreateAccount_def Let_def getStateObject_wf [OF wfj] wf_txn_def
               wf_journal_Insert wf_entry_obj wf_obj_set_Balance split: option.splits)
  next
    case (OpCleanDeleteObjects b)
    with wf run show ?thesis
      by (auto simp: CleanDeleteObjects_def Let_def wf_txn_def wf_journal_Delete
               split: sum.splits dest: mark_deleted_wf)
  qed
qed

lemma run_ops_wf_txn: "wf_txn t \<Longrightarrow> run_ops K t xs = Inr t' \<Longrightarrow> wf_txn t'"
proof (induction xs arbitrary: t)
  case Nil
  then show ?case by simp
next
  case (Cons x xs)
  then show ?case
    by (auto split: sum.splits dest: apply_op_wf_txn)
qed

text \<open>
  Every journal reached from a new transaction is well-formed, so the
  hypothesis \<open>wf_journal\<close> of the theorems below excludes no state of a
  running transaction.
\<close>

lemma reachable_wf: "run_ops K (newTxn s) xs = Inr t \<Longrightarrow> wf_journal (txn t)"
  using run_ops_wf_txn [OF wf_txn_newTxn] by (auto simp: wf_txn_def)

lemma SetBalance_wf:
  "wf_journal (txn t) \<Longrightarrow>
   SetBalance t a v = Inr (t\<lparr>txn := Insert (txn t) (AddressBytes a) (JObj (set_Balance \<bar>v\<bar> (subject t a)))\<rparr>)"
  unfolding SetBalance_def by (rule modify_wf)

lemma Snapshot_revert_balance:
  assumes wf: "wf_journal (txn t)"
  shows "\<exists>t1 t2 t3. SetBalance t a 100 = Inr t1
           \<and> SetBalance (snd (Snapshot t1)) a 200 = Inr t2
           \<and> RevertToSnapshot t2 (fst (Snapshot t1)) = Inr t3
           \<and> GetBalance t3 a = Inr 100"
proof -
  let ?t1 = "t\<lparr>txn := Insert (txn t) (AddressBytes a) (JObj (set_Balance 100 (subject t a)))\<rparr>"
  have t1: "SetBalance t a 100 = Inr ?t1"
    using SetBalance_wf [OF wf, of a 100] by simp
  have b1: "GetBalance ?t1 a = Inr 100"
    by (simp add: GetBalance_Insert_address so_Deleted_set_Balance subject_not_Deleted
          Balance_set_Balance)
  have wf1: "wf_journal (txn (snd (Snapshot ?t1)))"
    using wf subject_wf_obj [OF wf, of a]
    by (simp add: Snapshot_def Let_def wf_journal_Insert wf_entry_obj wf_obj_set_Balance)
  obtain t2 where t2: "SetBalance (snd (Snapshot ?t1)) a 200 = Inr t2"
    using SetBalance_wf [OF wf1] by blast
  then have "run_ops id (snd (Snapshot ?t1)) [OpSetBalance a 200] = Inr t2"
    by simp
  from Snapshot_revert_journal [OF this] obtain t3 where
    t3: "RevertToSnapshot t2 (fst (Snapshot ?t1)) = Inr t3"
      "\<forall>a. getStateObject t3 a = getStateObject ?t1 a"
    by blast
  have "GetBalance t3 a = GetBalance ?t1 a"
    using t3(2) by (simp add: GetBalance_def)
  with t1 t2 t3(1) b1 show ?thesis by auto
qed

section \<open>The claims\<close>

text \<open>
  C1. On revision Istanbul, for a visible account whose slot \<open>k\<close> has the
  committed value 0 and no pending write, the calls
  \<open>SetStorage a k 1\<close>, \<open>SetStorage a k 2\<close>, \<open>SetStorage a k 0\<close> return
  \<open>StorageAdded\<close>, \<open>StorageModifiedAgain\<close> and \<open>StorageModifiedAgain\<close>; the
  first two leave the refund counter as it was and the third adds 19200 to it
  (in 64-bit arithmetic, as the counter is a \<^verbatim>\<open>uint64\<close>).
\<close>

theorem SetStorage_Istanbul_sequence:
  assumes wf: "wf_journal (txn t)" and rv: "rev t = Istanbul"
    and ex: "Exist t a = Inr True"
    and committed: "GetCommittedState t a k = Inr zeroHash"
    and current: "GetState t a k = Inr zeroHash"
  shows "\<exists>r t1 t2 t3. GetRefund t = Inr r
      \<and> SetStorage t a k (BytesToHash [1]) = Inr (StorageAdded, t1) \<and> GetRefund t1 = Inr r
      \<and> SetStorage t1 a k (BytesToHash [2]) = Inr (StorageModifiedAgain, t2) \<and> GetRefund t2 = Inr r
      \<and> SetStorage t2 a k zeroHash = Inr (StorageModifiedAgain, t3) \<and> GetRefund t3 = Inr (r + 19200)"
proof -
  have ne: "BytesToHash [1] \<noteq> zeroHash" "BytesToHash [2] \<noteq> zeroHash" "BytesToHash [2] \<noteq> BytesToHash [1]"
    by (simp_all add: zeroHash_single BytesToHash_single_eq)
  have nl: "\<not> legacy Istanbul"
    by (simp add: legacy_def Istanbul_def Constantinople_def Petersburg_def)
  obtain r where r: "GetRefund t = Inr r"
    using GetRefund_wf [OF wf] by blast
  obtain t1 where t1: "SetStorage t a k (BytesToHash [1]) = Inr (StorageAdded, t1)"
      "GetRefund t1 = Inr r" "wf_journal (txn t1)" "GetState t1 a k = Inr (BytesToHash [1])"
      "rev t1 = Istanbul" "Exist t1 a = Inr True" "GetCommittedState t1 a k = Inr zeroHash"
    using SetStorage_refines [OF wf current committed r, of "BytesToHash [1]"] ne nl ex rv
    by (auto simp: spec_status_def spec_refund_def)
  obtain t2 where t2: "SetStorage t1 a k (BytesToHash [2]) = Inr (StorageModifiedAgain, t2)"
      "GetRefund t2 = Inr r" "wf_journal (txn t2)" "GetState t2 a k = Inr (BytesToHash [2])"
      "rev t2 = Istanbul" "Exist t2 a = Inr True" "GetCommittedState t2 a k = Inr zeroHash"
    using SetStorage_refines [OF t1(3) t1(4) t1(7) t1(2), of "BytesToHash [2]"] ne nl t1(5,6)
    by (auto simp: spec_status_def spec_refund_def)
  obtain t3 where t3: "SetStorage t2 a k zeroHash = Inr (StorageModifiedAgain, t3)"
      "GetRefund t3 = Inr (r + 19200)"
    using SetStorage_refines [OF t2(3) t2(4) t2(7) t2(2), of zeroHash] ne nl t2(5,6)
    by (auto simp: spec_status_def spec_refund_def)
  from r t1(1,2) t2(1,2) t3 show ?thesis by blast
qed

theorem SetStorage_Istanbul_sequence_witness:
  "wf_journal (txn (example_txn Istanbul)) \<and> rev (example_txn Istanbul) = Istanbul
   \<and> Exist (example_txn Istanbul) addr1 = Inr True
   \<and> GetCommittedState (example_txn Istanbul) addr1 (BytesToHash [8]) = Inr zeroHash
   \<and> GetState (example_txn Istanbul) addr1 (BytesToHash [8]) = Inr zeroHash
   \<and> (\<exists>t1 t2 t3.
        SetStorage (example_txn Istanbul) addr1 (BytesToHash [8]) (BytesToHash [1]) = Inr (StorageAdded, t1)
        \<and> GetRefund t1 = Inr 0
        \<and> SetStorage t1 addr1 (BytesToHash [8]) (BytesToHash [2]) = Inr (StorageModifiedAgain, t2)
        \<and> GetRefund t2 = Inr 0
        \<and> SetStorage t2 addr1 (BytesToHash [8]) zeroHash = Inr (StorageModifiedAgain, t3)
        \<and> GetRefund t3 = Inr 19200)"
proof -
  have k: "BytesToHash [8] \<noteq> BytesToHash [7]"
    by (simp add: BytesToHash_single_eq)
  have r: "GetRefund (example_txn Istanbul) = Inr 0"
    by (simp add: GetRefund_def example_txn_simps)
  have c: "GetCommittedState (example_txn Istanbul) addr1 (BytesToHash [8]) = Inr zeroHash"
      "GetState (example_txn Istanbul) addr1 (BytesToHash [8]) = Inr zeroHash"
    using k by (simp_all add: example_GetState)
  show ?thesis
    using SetStorage_Istanbul_sequence [OF example_wf example_txn_simps(2) example_Exist c] r c
    by (auto simp: wf_journal_Nil example_txn_simps example_Exist)
qed

text \<open>
  C2. Under legacy gas metering (the revision is before Constantinople, or is
  Petersburg), \<open>SetStorage a k new\<close> with \<open>new\<close> different from the current
  value returns \<open>StorageAdded\<close> when the current value is zero; otherwise,
  when \<open>new\<close> is zero, it adds 15000 to the refund counter and returns
  \<open>StorageDeleted\<close>; otherwise it returns \<open>StorageModified\<close> and leaves the
  refund counter as it was. In particular, on Petersburg, with the committed
  value 5 in the slot, \<open>SetStorage a k 0\<close> returns \<open>StorageDeleted\<close> and the
  refund counter grows by 15000.
\<close>

theorem SetStorage_legacy:
  assumes wf: "wf_journal (txn t)"
  shows "(rev t < Constantinople \<or> rev t = Petersburg \<longrightarrow> GetState t a k = Inr current \<longrightarrow> new \<noteq> current \<longrightarrow>
           (\<exists>r t'. GetRefund t = Inr r \<and>
              (current = zeroHash \<longrightarrow> SetStorage t a k new = Inr (StorageAdded, t')) \<and>
              (current \<noteq> zeroHash \<and> new = zeroHash \<longrightarrow>
                 SetStorage t a k new = Inr (StorageDeleted, t') \<and> GetRefund t' = Inr (r + 15000)) \<and>
              (current \<noteq> zeroHash \<and> new \<noteq> zeroHash \<longrightarrow>
                 SetStorage t a k new = Inr (StorageModified, t') \<and> GetRefund t' = Inr r)))
       \<and> (rev t = Petersburg \<longrightarrow> GetCommittedState t a k = Inr (BytesToHash [5])
             \<longrightarrow> GetState t a k = Inr (BytesToHash [5]) \<longrightarrow>
           (\<exists>r t'. GetRefund t = Inr r \<and> SetStorage t a k zeroHash = Inr (StorageDeleted, t')
                     \<and> GetRefund t' = Inr (r + 15000)))"
proof -
  obtain r where r: "GetRefund t = Inr r"
    using GetRefund_wf [OF wf] by blast
  obtain original where orig: "GetCommittedState t a k = Inr original"
    using GetCommittedState_ex [OF wf] by blast
  have general: "\<exists>r t'. GetRefund t = Inr r \<and>
              (current = zeroHash \<longrightarrow> SetStorage t a k new = Inr (StorageAdded, t')) \<and>
              (current \<noteq> zeroHash \<and> new = zeroHash \<longrightarrow>
                 SetStorage t a k new = Inr (StorageDeleted, t') \<and> GetRefund t' = Inr (r + 15000)) \<and>
              (current \<noteq> zeroHash \<and> new \<noteq> zeroHash \<longrightarrow>
                 SetStorage t a k new = Inr (StorageModified, t') \<and> GetRefund t' = Inr r)"
    if "legacy (rev t)" "GetState t a k = Inr current" "new \<noteq> current" for current new
    using SetStorage_refines [OF wf that(2) orig r, of new] that(1,3) r
    by (auto simp: spec_status_def spec_refund_def)
  have five: "BytesToHash [5] \<noteq> zeroHash"
    by (simp add: zeroHash_single BytesToHash_single_eq)
  have "legacy Petersburg"
    by (simp add: legacy_def)
  with general [of "BytesToHash [5]" zeroHash] five
  have particular: "rev t = Petersburg \<longrightarrow> GetState t a k = Inr (BytesToHash [5]) \<longrightarrow>
           (\<exists>r t'. GetRefund t = Inr r \<and> SetStorage t a k zeroHash = Inr (StorageDeleted, t')
                     \<and> GetRefund t' = Inr (r + 15000))"
    by auto
  from general particular show ?thesis
    unfolding legacy_def by blast
qed

theorem SetStorage_legacy_witness:
  "wf_journal (txn (example_txn Petersburg)) \<and> rev (example_txn Petersburg) = Petersburg
   \<and> GetCommittedState (example_txn Petersburg) addr1 (BytesToHash [7]) = Inr (BytesToHash [5])
   \<and> GetState (example_txn Petersburg) addr1 (BytesToHash [7]) = Inr (BytesToHash [5])
   \<and> GetState (example_txn Petersburg) addr1 (BytesToHash [8]) = Inr zeroHash
   \<and> (\<exists>t'. SetStorage (example_txn Petersburg) addr1 (BytesToHash [7]) zeroHash = Inr (StorageDeleted, t')
            \<and> GetRefund t' = Inr 15000)
   \<and> (\<exists>t'. SetStorage (example_txn Petersburg) addr1 (BytesToHash [7]) (BytesToHash [6]) = Inr (StorageModified, t')
            \<and> GetRefund t' = Inr 0)
   \<and> (\<exists>t'. SetStorage (example_txn Petersburg) addr1 (BytesToHash [8]) (BytesToHash [6]) = Inr (StorageAdded, t'))"
proof -
  have ne: "BytesToHash [8] \<noteq> BytesToHash [7]" "BytesToHash [5] \<noteq> zeroHash" "BytesToHash [6] \<noteq> zeroHash"
      "BytesToHash [6] \<noteq> BytesToHash [5]"
    by (simp_all add: BytesToHash_single_eq zeroHash_single)
  have r: "GetRefund (example_txn Petersburg) = Inr 0"
    by (simp add: GetRefund_def example_txn_simps)
  have c: "GetCommittedState (example_txn Petersburg) addr1 (BytesToHash [7]) = Inr (BytesToHash [5])"
      "GetState (example_txn Petersburg) addr1 (BytesToHash [7]) = Inr (BytesToHash [5])"
      "GetState (example_txn Petersburg) addr1 (BytesToHash [8]) = Inr zeroHash"
    using ne by (simp_all add: example_GetState)
  show ?thesis
    using SetStorage_legacy [OF example_wf, of Petersburg addr1 "BytesToHash [7]" "BytesToHash [5]" zeroHash]
      SetStorage_legacy [OF example_wf, of Petersburg addr1 "BytesToHash [7]" "BytesToHash [5]" "BytesToHash [6]"]
      SetStorage_legacy [OF example_wf, of Petersburg addr1 "BytesToHash [8]" zeroHash "BytesToHash [6]"]
      r c ne
    by (auto simp: wf_journal_Nil example_txn_simps)
qed

text \<open>
  C3. If \<open>GetState a k\<close> already is \<open>v\<close>, then \<open>SetStorage a k v\<close> returns
  \<open>StorageUnchanged\<close> and the transaction is left exactly as it was: no write
  to the slot overlay, no change of the refund counter. Hence a second
  \<open>SetStorage a k v\<close> right after a first one returns \<open>StorageUnchanged\<close>.
\<close>

theorem SetStorage_same_value:
  "(GetState t a k = Inr v \<longrightarrow> SetStorage t a k v = Inr (StorageUnchanged, t))
   \<and> (wf_journal (txn t) \<longrightarrow>
        (\<exists>st t'. SetStorage t a k v = Inr (st, t') \<and> SetStorage t' a k v = Inr (StorageUnchanged, t')))"
proof -
  have first: "SetStorage t a k v = Inr (StorageUnchanged, t)" if "GetState t a k = Inr v" for t
    using that by (simp add: SetStorage_def)
  have second: "\<exists>st t'. SetStorage t a k v = Inr (st, t') \<and> SetStorage t' a k v = Inr (StorageUnchanged, t')"
    if wf: "wf_journal (txn t)"
  proof -
    obtain r where r: "GetRefund t = Inr r"
      using GetRefund_wf [OF wf] by blast
    obtain original where orig: "GetCommittedState t a k = Inr original"
      using GetCommittedState_ex [OF wf] by blast
    obtain current where cur: "GetState t a k = Inr current"
      using GetState_wf [OF wf] by blast
    from SetStorage_refines [OF wf cur orig r, of v] first show ?thesis by blast
  qed
  from first second show ?thesis by blast
qed

theorem SetStorage_same_value_witness:
  "GetState (example_txn 0) addr1 (BytesToHash [7]) = Inr (BytesToHash [5])
   \<and> SetStorage (example_txn 0) addr1 (BytesToHash [7]) (BytesToHash [5]) = Inr (StorageUnchanged, example_txn 0)
   \<and> wf_journal (txn (example_txn 0))
   \<and> (\<exists>st t'. SetStorage (example_txn 0) addr1 (BytesToHash [7]) (BytesToHash [6]) = Inr (st, t')
          \<and> SetStorage t' addr1 (BytesToHash [7]) (BytesToHash [6]) = Inr (StorageUnchanged, t'))"
  using SetStorage_same_value [of "example_txn 0" addr1 "BytesToHash [7]" "BytesToHash [5]"]
    SetStorage_same_value [of "example_txn 0" addr1 "BytesToHash [7]" "BytesToHash [6]"]
  by (simp add: example_GetState example_wf)

text \<open>
  C4. \<open>SubBalance a v\<close>: with \<open>v = 0\<close> it succeeds and changes nothing;
  with a visible balance below \<open>v\<close> it returns \<open>ErrNotEnoughFunds\<close> and leaves
  the whole transaction as it was; otherwise it succeeds and the balance of
  \<open>a\<close> is lower by exactly \<open>v\<close>.
\<close>

theorem SubBalance_contract:
  assumes "wf_journal (txn t)"
  shows "\<exists>b. GetBalance t a = Inr b \<and>
     (v = 0 \<longrightarrow> SubBalance t a v = Inr (None, t)) \<and>
     (v \<noteq> 0 \<and> b < v \<longrightarrow> SubBalance t a v = Inr (Some ErrNotEnoughFunds, t)) \<and>
     (v \<noteq> 0 \<and> \<not> b < v \<longrightarrow>
        (\<exists>t'. SubBalance t a v = Inr (None, t') \<and> GetBalance t' a = Inr (b - v)))"
proof -
  let ?b = "Balance (so_Account (subject t a))"
  have b: "GetBalance t a = Inr ?b"
    using assms by (rule GetBalance_wf)
  have zero: "v = 0 \<longrightarrow> SubBalance t a v = Inr (None, t)"
    by (simp add: SubBalance_def)
  have short: "v \<noteq> 0 \<and> ?b < v \<longrightarrow> SubBalance t a v = Inr (Some ErrNotEnoughFunds, t)"
    by (simp add: SubBalance_def b)
  have enough: "v \<noteq> 0 \<and> \<not> ?b < v \<longrightarrow>
      (\<exists>t'. SubBalance t a v = Inr (None, t') \<and> GetBalance t' a = Inr (?b - v))"
    using assms
    by (simp add: SubBalance_def b modify_wf GetBalance_Insert_address
          so_Deleted_set_Balance subject_not_Deleted Balance_set_Balance)
  from b zero short enough show ?thesis by blast
qed

theorem SubBalance_contract_witness:
  "wf_journal (txn (example_txn 0))
   \<and> SubBalance (example_txn 0) addr1 0 = Inr (None, example_txn 0)
   \<and> SubBalance (example_txn 0) addr1 101 = Inr (Some ErrNotEnoughFunds, example_txn 0)
   \<and> (\<exists>t'. SubBalance (example_txn 0) addr1 30 = Inr (None, t') \<and> GetBalance t' addr1 = Inr 70)"
proof -
  have wf: "wf_journal (txn (example_txn 0))"
    by (simp add: example_txn_simps wf_journal_Nil)
  have b: "GetBalance (example_txn 0) addr1 = Inr 100"
    by (simp add: GetBalance_def example_getStateObject example_account_def)
  show ?thesis
    using wf b SubBalance_contract [OF wf, of addr1 0] SubBalance_contract [OF wf, of addr1 101]
      SubBalance_contract [OF wf, of addr1 30]
    by auto
qed

text \<open>
  C5. The claim: after \<open>Snapshot\<close>, any run of operations and
  \<open>RevertToSnapshot\<close> to the identifier taken, the observable state is as if
  the operations had not run. The journal is restored
  (\<open>Snapshot_revert_journal\<close> above, and \<open>Snapshot_revert_balance\<close> for the
  scenario with balances 100 and 200), but the logs are not always: the log
  slice in a stored version shares its backing array with later versions, and
  \<^verbatim>\<open>EmitLog\<close> appends in place. After three logs, snapshot 0, a fourth log
  and snapshot 1, the operations \<open>RevertToSnapshot 0\<close> and \<open>EmitLog\<close> of a
  fifth log overwrite the fourth log of the version stored under 1, and
  \<open>RevertToSnapshot 1\<close> brings back the logs 1, 2, 3, 5 instead of 1, 2, 3, 4.
\<close>

theorem Snapshot_revert_logs_aliasing:
  "run_ops id (example_txn 0) aliasing_prefix = Inr aliasing_state
   \<and> (\<exists>u. Logs aliasing_state = Inr ([log_of 1, log_of 2, log_of 3, log_of 4], u))
   \<and> fst (Snapshot aliasing_state) = 1
   \<and> (\<exists>t' t'' u. run_ops id (snd (Snapshot aliasing_state)) aliasing_ops = Inr t'
          \<and> RevertToSnapshot t' 1 = Inr t'' \<and> txn t'' = txn aliasing_state
          \<and> Logs t'' = Inr ([log_of 1, log_of 2, log_of 3, log_of 5], u))"
proof -
  have prefix: "run_ops id (example_txn 0) aliasing_prefix = Inr aliasing_state"
    by (simp add: aliasing_prefix_def aliasing_state_def example_txn_def newTxn_def iradix_New_def
          EmitLog_def go_append_def empty_slice_def growslice_def slice_elems_def Let_def
          Snapshot_def log_of_def)
  have before: "\<exists>u. Logs aliasing_state = Inr ([log_of 1, log_of 2, log_of 3, log_of 4], u)"
    by (simp add: Logs_def aliasing_state_def slice_elems_def)
  have sid: "fst (Snapshot aliasing_state) = 1"
    by (simp add: Snapshot_def aliasing_state_def)
  have after: "\<exists>t' t'' u. run_ops id (snd (Snapshot aliasing_state)) aliasing_ops = Inr t'
          \<and> RevertToSnapshot t' 1 = Inr t'' \<and> txn t'' = txn aliasing_state
          \<and> Logs t'' = Inr ([log_of 1, log_of 2, log_of 3, log_of 5], u)"
    by (simp add: aliasing_ops_def aliasing_state_def Snapshot_def RevertToSnapshot_def
          EmitLog_def go_append_def slice_elems_def Let_def Logs_def log_of_def)
  from prefix before sid after show ?thesis by blast
qed

text \<open>
  C6. \<open>RevertToSnapshot\<close> panics for every identifier out of range
  (negative, or at least the number of snapshots taken); for every identifier
  in range it succeeds, the journal becomes the version stored under that
  identifier, and the list of versions is not truncated. \<open>Snapshot\<close> returns
  the number of versions taken so far and appends the current journal.
\<close>

theorem RevertToSnapshot_range:
  "(sid < 0 \<or> sid \<ge> int (length (snapshots t)) \<longrightarrow> (\<exists>p. RevertToSnapshot t sid = Inl p))
   \<and> (0 \<le> sid \<and> sid < int (length (snapshots t)) \<longrightarrow>
        (\<exists>t'. RevertToSnapshot t sid = Inr t' \<and> txn t' = snapshots t ! nat sid
              \<and> snapshots t' = snapshots t))
   \<and> fst (Snapshot t) = int (length (snapshots t))
   \<and> snapshots (snd (Snapshot t)) = snapshots t @ [txn t]"
  by (auto simp: RevertToSnapshot_def Snapshot_def Let_def)

theorem RevertToSnapshot_range_witness:
  "(\<exists>p. RevertToSnapshot (snd (Snapshot (example_txn 0))) (- 1) = Inl p)
   \<and> (\<exists>p. RevertToSnapshot (snd (Snapshot (example_txn 0))) 1 = Inl p)
   \<and> (\<exists>p. RevertToSnapshot (snd (Snapshot (example_txn 0))) 2 = Inl p)
   \<and> (\<exists>t'. RevertToSnapshot (snd (Snapshot (example_txn 0))) 0 = Inr t' \<and> txn t' = []
          \<and> snapshots t' = [[]])"
proof -
  have s: "snapshots (snd (Snapshot (example_txn 0))) = [[]]"
    by (simp add: Snapshot_def Let_def example_txn_simps)
  show ?thesis
    using RevertToSnapshot_range [of "- 1" "snd (Snapshot (example_txn 0))"]
      RevertToSnapshot_range [of 1 "snd (Snapshot (example_txn 0))"]
      RevertToSnapshot_range [of 2 "snd (Snapshot (example_txn 0))"]
      RevertToSnapshot_range [of 0 "snd (Snapshot (example_txn 0))"]
    by (simp add: s)
qed

text \<open>
  C7. \<open>Commit\<close> on a well-formed journal: the entries under the two
  sentinel keys contribute nothing to the list; the objects come in strictly
  ascending order of their addresses; every object of the list stems from the
  state object under its address, and every state object of the journal is in
  the list; an object whose state object has the deleted flag is emitted with
  \<open>o_Deleted\<close> and no storage entries; any other object has its slot overlay
  as storage list, strictly ascending by key, a tombstone as an entry with
  \<open>st_Deleted\<close> and a value as an entry with that value.
\<close>

theorem Commit_ordered:
  assumes wf: "wf_journal (txn t)"
  shows "Commit (t\<lparr>txn := Delete (Delete (txn t) logIndex) refundIndex\<rparr>) = Commit t
     \<and> sorted_wrt (<) (map (\<lambda>ob. AddressBytes (o_Address ob)) (Commit t))
     \<and> (\<forall>ob \<in> set (Commit t). \<exists>a.
           Get (txn t) (AddressBytes (o_Address ob)) = Some (JObj a)
           \<and> o_Deleted ob = so_Deleted a
           \<and> (so_Deleted a \<longrightarrow> o_Storage ob = [])
           \<and> (\<not> so_Deleted a \<longrightarrow>
                 sorted_wrt (<) (map st_Key (o_Storage ob))
                 \<and> o_Storage ob =
                     (case so_Txn a of
                        None \<Rightarrow> []
                      | Some tr \<Rightarrow>
                          map (\<lambda>e. \<lparr>st_Deleted = (snd e = None), st_Key = fst e,
                                     st_Val = (case snd e of None \<Rightarrow> [] | Some b \<Rightarrow> b)\<rparr>) tr)))
     \<and> (\<forall>k a. Get (txn t) k = Some (JObj a) \<longrightarrow>
           (\<exists>ob \<in> set (Commit t). AddressBytes (o_Address ob) = k))"
proof -
  have st: "sorted_tree (txn t)" and all: "list_all wf_entry (txn t)"
    using wf by (simp_all add: wf_journal_def)
  have no_log: "\<forall>a. (logIndex, JObj a) \<notin> set (txn t)"
    using wf_no_object_at_sentinel(1) [OF wf] by blast
  have "\<forall>a. (refundIndex, JObj a) \<notin> set (txn t)"
    using wf_no_object_at_sentinel(2) [OF wf] by blast
  then have no_refund: "\<forall>a. (refundIndex, JObj a) \<notin> set (Delete (txn t) logIndex)"
    using set_Delete [of "txn t" logIndex] by blast
  have sentinels: "Commit (t\<lparr>txn := Delete (Delete (txn t) logIndex) refundIndex\<rparr>) = Commit t"
    by (simp add: Commit_def Walk_def commit_walk_Delete [OF no_refund] commit_walk_Delete [OF no_log])
  have ordered: "sorted_wrt (<) (map (\<lambda>ob. AddressBytes (o_Address ob)) (Commit t))"
    using st by (simp add: Commit_def Walk_def commit_walk_addresses [OF all] sorted_keys_filter sorted_tree_def)
  have each: "\<exists>a. Get (txn t) (AddressBytes (o_Address ob)) = Some (JObj a)
           \<and> o_Deleted ob = so_Deleted a
           \<and> (so_Deleted a \<longrightarrow> o_Storage ob = [])
           \<and> (\<not> so_Deleted a \<longrightarrow>
                 sorted_wrt (<) (map st_Key (o_Storage ob))
                 \<and> o_Storage ob = (case so_Txn a of None \<Rightarrow> [] | Some tr \<Rightarrow> map store_spec tr))"
    if "ob \<in> set (Commit t)" for ob
  proof -
    from that obtain k a where ka: "(k, JObj a) \<in> set (txn t)" "ob = object_of k a"
      by (auto simp: Commit_def Walk_def set_commit_walk)
    have e: "wf_entry (k, JObj a)"
      using all ka(1) by (auto simp: list_all_iff)
    then have "length k = 20"
      by (simp add: wf_entry_def)
    then have k: "AddressBytes (BytesToAddress k) = k"
      by (simp add: AddressBytes_BytesToAddress right_align_id)
    have g: "Get (txn t) k = Some (JObj a)"
      using st ka(1) by (rule Get_of_sorted)
    have keys: "st_Key \<circ> store_spec = fst"
      by (rule ext) (simp add: store_spec_def)
    have "sorted_wrt (<) (map st_Key (case so_Txn a of None \<Rightarrow> [] | Some tr \<Rightarrow> map store_spec tr))"
      using e by (auto simp: wf_entry_def keys sorted_tree_def split: option.splits)
    then show ?thesis
      using g by (auto simp: ka(2) object_of_def k Walk_def store_of_spec split: option.splits)
  qed
  have emitted: "\<exists>ob \<in> set (Commit t). AddressBytes (o_Address ob) = k"
    if "Get (txn t) k = Some (JObj a)" for k a
  proof -
    have in_j: "(k, JObj a) \<in> set (txn t)"
      using that by (rule Get_in_set)
    with all have "wf_entry (k, JObj a)"
      by (auto simp: list_all_iff)
    then have "length k = 20"
      by (simp add: wf_entry_def)
    then have "AddressBytes (o_Address (object_of k a)) = k"
      by (simp add: object_of_def AddressBytes_BytesToAddress right_align_id)
    moreover have "object_of k a \<in> set (Commit t)"
      using in_j by (auto simp: Commit_def Walk_def set_commit_walk)
    ultimately show ?thesis by blast
  qed
  show ?thesis
  proof (intro conjI ballI allI impI)
    show "Commit (t\<lparr>txn := Delete (Delete (txn t) logIndex) refundIndex\<rparr>) = Commit t"
      by (rule sentinels)
    show "sorted_wrt (<) (map (\<lambda>ob. AddressBytes (o_Address ob)) (Commit t))"
      by (rule ordered)
    show "\<exists>a. Get (txn t) (AddressBytes (o_Address ob)) = Some (JObj a)
           \<and> o_Deleted ob = so_Deleted a
           \<and> (so_Deleted a \<longrightarrow> o_Storage ob = [])
           \<and> (\<not> so_Deleted a \<longrightarrow>
                 sorted_wrt (<) (map st_Key (o_Storage ob))
                 \<and> o_Storage ob =
                     (case so_Txn a of
                        None \<Rightarrow> []
                      | Some tr \<Rightarrow>
                          map (\<lambda>e. \<lparr>st_Deleted = (snd e = None), st_Key = fst e,
                                     st_Val = (case snd e of None \<Rightarrow> [] | Some b \<Rightarrow> b)\<rparr>) tr))"
      if "ob \<in> set (Commit t)" for ob
      using each [OF that] unfolding store_spec_def by simp
    show "\<exists>ob \<in> set (Commit t). AddressBytes (o_Address ob) = k"
      if "Get (txn t) k = Some (JObj a)" for k a
      using that by (rule emitted)
  qed
qed

theorem Commit_ordered_witness:
  "wf_journal (txn busy_txn)
   \<and> Commit (busy_txn\<lparr>txn := Delete (Delete (txn busy_txn) logIndex) refundIndex\<rparr>) = Commit busy_txn
   \<and> map o_Address (Commit busy_txn) = [addr1, addr2, addr3]
   \<and> sorted_wrt (<) (map (\<lambda>ob. AddressBytes (o_Address ob)) (Commit busy_txn))
   \<and> (\<exists>ob a. ob \<in> set (Commit busy_txn) \<and> o_Address ob = addr1
          \<and> Get (txn busy_txn) (AddressBytes addr1) = Some (JObj a)
          \<and> \<not> so_Deleted a \<and> \<not> o_Deleted ob
          \<and> sorted_wrt (<) (map st_Key (o_Storage ob))
          \<and> map st_Deleted (o_Storage ob) = [True, False])
   \<and> (\<exists>ob a. ob \<in> set (Commit busy_txn) \<and> o_Address ob = addr3
          \<and> Get (txn busy_txn) (AddressBytes addr3) = Some (JObj a)
          \<and> so_Deleted a \<and> o_Deleted ob \<and> o_Storage ob = [])
   \<and> Get (txn busy_txn) (AddressBytes addr2) = Some (JObj newStateObject)
   \<and> (\<exists>ob. ob \<in> set (Commit busy_txn) \<and> AddressBytes (o_Address ob) = AddressBytes addr2)"
proof -
  note inst = Commit_ordered [OF busy_wf]
  note sentinels = inst [THEN conjunct1]
  note ordered = inst [THEN conjunct2, THEN conjunct1]
  note each = inst [THEN conjunct2, THEN conjunct2, THEN conjunct1, THEN bspec]
  note emitted = inst [THEN conjunct2, THEN conjunct2, THEN conjunct2, THEN spec, THEN spec, THEN mp]
  let ?ob1 = "hd (Commit busy_txn)" and ?ob3 = "last (Commit busy_txn)"
  have in1: "?ob1 \<in> set (Commit busy_txn)" and in3: "?ob3 \<in> set (Commit busy_txn)"
    by (simp_all add: busy_Commit)
  have a1: "o_Address ?ob1 = addr1" "\<not> o_Deleted ?ob1" "map st_Deleted (o_Storage ?ob1) = [True, False]"
    and a3: "o_Address ?ob3 = addr3" "o_Deleted ?ob3"
    by (simp_all add: busy_Commit)
  from each [OF in1] obtain a where a:
    "Get (txn busy_txn) (AddressBytes addr1) = Some (JObj a)" "\<not> so_Deleted a"
    "sorted_wrt (<) (map st_Key (o_Storage ?ob1))"
    using a1(1,2) by auto
  from each [OF in3] obtain a' where a':
    "Get (txn busy_txn) (AddressBytes addr3) = Some (JObj a')" "so_Deleted a'"
    "o_Storage ?ob3 = []"
    using a3 by auto
  have addrs: "map o_Address (Commit busy_txn) = [addr1, addr2, addr3]"
    by (simp add: busy_Commit)
  have first: "\<exists>ob a. ob \<in> set (Commit busy_txn) \<and> o_Address ob = addr1
          \<and> Get (txn busy_txn) (AddressBytes addr1) = Some (JObj a)
          \<and> \<not> so_Deleted a \<and> \<not> o_Deleted ob
          \<and> sorted_wrt (<) (map st_Key (o_Storage ob))
          \<and> map st_Deleted (o_Storage ob) = [True, False]"
    by (rule exI [of _ ?ob1], rule exI [of _ a]) (simp add: in1 a1 a)
  have third: "\<exists>ob a. ob \<in> set (Commit busy_txn) \<and> o_Address ob = addr3
          \<and> Get (txn busy_txn) (AddressBytes addr3) = Some (JObj a)
          \<and> so_Deleted a \<and> o_Deleted ob \<and> o_Storage ob = []"
    by (rule exI [of _ ?ob3], rule exI [of _ a']) (simp add: in3 a3 a')
  have second: "\<exists>ob. ob \<in> set (Commit busy_txn) \<and> AddressBytes (o_Address ob) = AddressBytes addr2"
    using emitted [OF busy_Get(1)] by (simp add: Bex_def)
  show ?thesis
    using busy_wf sentinels addrs ordered first third busy_Get(1) second
    by (intro conjI)
qed

text \<open>
  C8. \<open>CreateAccount a\<close> installs a fresh object at \<open>a\<close>: its balance is the
  balance visible at \<open>a\<close> before (zero if there was none), its nonce is 0, its
  code hash is \<open>EmptyCodeHash\<close> and its code is empty, its storage root is
  \<open>EmptyStateHash\<close>, it has no slot overlay, and none of its flags is set.
  The balance is a \<^verbatim>\<open>big.Int\<close>, and the source copies its magnitude; the
  data model of accounts has no negative balance, which is the hypothesis
  \<open>0 \<le> b\<close>.
\<close>

theorem CreateAccount_fresh:
  assumes wf: "wf_journal (txn t)" and b: "GetBalance t a = Inr b" and nonneg: "0 \<le> b"
  shows "\<exists>t'. CreateAccount t a = Inr t'
     \<and> Get (txn t') (AddressBytes a) =
         Some (JObj \<lparr>so_Account = \<lparr>Nonce = 0, Balance = b, Root = EmptyStateHash,
                                   CodeHash = HashBytes EmptyCodeHash\<rparr>,
                      so_Code = [], so_Suicide = False, so_Deleted = False, so_DirtyCode = False,
                      so_Txn = None\<rparr>)"
  using b nonneg
  by (auto simp: CreateAccount_def getStateObject_wf [OF wf] GetBalance_def Get_Insert
        newStateObject_def set_Balance_def Let_def split: option.splits)

theorem CreateAccount_fresh_witness:
  "wf_journal (txn (example_txn 0))
   \<and> GetBalance (example_txn 0) addr1 = Inr 100 \<and> (0::int) \<le> 100
   \<and> (\<exists>t'. CreateAccount (example_txn 0) addr1 = Inr t'
     \<and> Get (txn t') (AddressBytes addr1) =
         Some (JObj \<lparr>so_Account = \<lparr>Nonce = 0, Balance = 100, Root = EmptyStateHash,
                                   CodeHash = HashBytes EmptyCodeHash\<rparr>,
                      so_Code = [], so_Suicide = False, so_Deleted = False, so_DirtyCode = False,
                      so_Txn = None\<rparr>))
   \<and> GetBalance (example_txn 0) (BytesToAddress [2]) = Inr 0
   \<and> (\<exists>t'. CreateAccount (example_txn 0) (BytesToAddress [2]) = Inr t'
     \<and> Get (txn t') (AddressBytes (BytesToAddress [2])) =
         Some (JObj \<lparr>so_Account = \<lparr>Nonce = 0, Balance = 0, Root = EmptyStateHash,
                                   CodeHash = HashBytes EmptyCodeHash\<rparr>,
                      so_Code = [], so_Suicide = False, so_Deleted = False, so_DirtyCode = False,
                      so_Txn = None\<rparr>))"
proof -
  have absent: "GetBalance (example_txn 0) (BytesToAddress [2]) = Inr 0"
    by (simp add: GetBalance_def getStateObject_def example_txn_simps example_snapshot_def
          addr1_def BytesToAddress_single_eq)
  show ?thesis
    using CreateAccount_fresh [OF example_wf example_GetBalance, of 0]
      CreateAccount_fresh [OF example_wf absent]
    by (simp add: example_wf example_GetBalance absent)
qed

text \<open>
  C9. \<open>CleanDeleteObjects\<close> on a well-formed journal sets the deleted flag
  on exactly the state objects that are suicided, or that are empty when
  \<open>deleteEmptyObjects\<close> holds; it removes the entry of the refund counter, so
  that \<open>GetRefund\<close> returns 0 afterwards; every other entry of the journal is
  as it was.
\<close>

theorem CleanDeleteObjects_marks:
  assumes wf: "wf_journal (txn t)"
  shows "\<exists>t'. CleanDeleteObjects t deleteEmptyObjects = Inr t'
     \<and> GetRefund t' = Inr 0 \<and> Get (txn t') refundIndex = None
     \<and> (\<forall>k. k \<noteq> refundIndex \<longrightarrow>
          Get (txn t') k =
            (case Get (txn t) k of
               Some (JObj obj) \<Rightarrow>
                 Some (JObj (if so_Suicide obj \<or> Empty_obj obj \<and> deleteEmptyObjects
                             then obj\<lparr>so_Deleted := True\<rparr> else obj))
             | other \<Rightarrow> other))"
proof -
  define ks where "ks = map fst (filter (to_remove deleteEmptyObjects) (Walk (txn t)))"
  have st: "sorted_tree (txn t)"
    using wf by (simp add: wf_journal_def)
  have keys: "k \<in> set ks \<longleftrightarrow>
      (\<exists>obj. Get (txn t) k = Some (JObj obj) \<and> (so_Suicide obj \<or> Empty_obj obj \<and> deleteEmptyObjects))" for k
    unfolding Walk_def ks_def by (rule to_remove_keys [OF st])
  have "\<forall>k \<in> set ks. \<exists>obj. Get (txn t) k = Some (JObj obj)"
    using keys by blast
  from mark_deleted_Get [OF this] obtain j' where j':
    "mark_deleted (txn t) ks = Inr j'"
    "\<And>k. Get j' k = (if k \<in> set ks then map_option mark (Get (txn t) k) else Get (txn t) k)"
    by blast
  let ?t' = "t\<lparr>txn := Delete j' refundIndex\<rparr>"
  have run: "CleanDeleteObjects t deleteEmptyObjects = Inr ?t'"
    by (simp add: CleanDeleteObjects_def j'(1) flip: ks_def)
  have refund: "GetRefund ?t' = Inr 0" "Get (txn ?t') refundIndex = None"
    by (simp_all add: GetRefund_def Get_Delete)
  have others: "Get (txn ?t') k =
            (case Get (txn t) k of
               Some (JObj obj) \<Rightarrow>
                 Some (JObj (if so_Suicide obj \<or> Empty_obj obj \<and> deleteEmptyObjects
                             then obj\<lparr>so_Deleted := True\<rparr> else obj))
             | other \<Rightarrow> other)" if "k \<noteq> refundIndex" for k
  proof (cases "k \<in> set ks")
    case True
    then obtain obj where obj: "Get (txn t) k = Some (JObj obj)"
        "so_Suicide obj \<or> Empty_obj obj \<and> deleteEmptyObjects"
      using keys by blast
    have "Get (txn ?t') k = map_option mark (Get (txn t) k)"
      using True that by (simp add: Get_Delete j'(2))
    with obj show ?thesis
      by (simp add: mark_def)
  next
    case False
    have same: "Get (txn ?t') k = Get (txn t) k"
      using False that by (simp add: Get_Delete j'(2))
    have keep: "\<not> (so_Suicide obj \<or> Empty_obj obj \<and> deleteEmptyObjects)"
      if "Get (txn t) k = Some (JObj obj)" for obj
      using False keys that by blast
    show ?thesis
    proof (cases "Get (txn t) k")
      case None
      with same show ?thesis by simp
    next
      case (Some v)
      show ?thesis
      proof (cases v)
        case (JObj obj)
        with Some keep [of obj] same show ?thesis by auto
      qed (use Some same in simp_all)
    qed
  qed
  show ?thesis
  proof (intro exI conjI allI impI)
    show "CleanDeleteObjects t deleteEmptyObjects = Inr ?t'" by (rule run)
    show "GetRefund ?t' = Inr 0" by (rule refund)
    show "Get (txn ?t') refundIndex = None" by (rule refund)
    show "Get (txn ?t') k =
            (case Get (txn t) k of
               Some (JObj obj) \<Rightarrow>
                 Some (JObj (if so_Suicide obj \<or> Empty_obj obj \<and> deleteEmptyObjects
                             then obj\<lparr>so_Deleted := True\<rparr> else obj))
             | other \<Rightarrow> other)" if "k \<noteq> refundIndex" for k
      using that by (rule others)
  qed
qed

theorem CleanDeleteObjects_marks_witness:
  "wf_journal (txn busy_txn)
   \<and> (\<exists>t'. CleanDeleteObjects busy_txn True = Inr t'
     \<and> GetRefund t' = Inr 0 \<and> Get (txn t') refundIndex = None
     \<and> AddressBytes addr2 \<noteq> refundIndex
     \<and> Get (txn t') (AddressBytes addr2) = Some (JObj (newStateObject\<lparr>so_Deleted := True\<rparr>))
     \<and> logIndex \<noteq> refundIndex
     \<and> Get (txn t') logIndex = Some (JLogs empty_slice))"
proof -
  have e: "Empty_obj newStateObject"
    by (simp add: Empty_obj_def newStateObject_def)
  from CleanDeleteObjects_marks [OF busy_wf, of True] obtain t' where t':
    "CleanDeleteObjects busy_txn True = Inr t'" "GetRefund t' = Inr 0"
    "Get (txn t') refundIndex = None"
    "\<And>k. k \<noteq> refundIndex \<Longrightarrow> Get (txn t') k =
            (case Get (txn busy_txn) k of
               Some (JObj obj) \<Rightarrow>
                 Some (JObj (if so_Suicide obj \<or> Empty_obj obj \<and> True
                             then obj\<lparr>so_Deleted := True\<rparr> else obj))
             | other \<Rightarrow> other)"
    by blast
  have "Get (txn t') (AddressBytes addr2) = Some (JObj (newStateObject\<lparr>so_Deleted := True\<rparr>))"
    using t'(4) [of "AddressBytes addr2"] e by (simp add: AddressBytes_neq_sentinel busy_Get)
  moreover have "Get (txn t') logIndex = Some (JLogs empty_slice)"
    using t'(4) [of logIndex] by (simp add: logIndex_neq_refundIndex busy_Get)
  ultimately show ?thesis
    using t'(1,2,3) busy_wf AddressBytes_neq_sentinel(2) [of addr2] logIndex_neq_refundIndex
    by blast
qed

text \<open>
  C10. \<open>Suicide a\<close> on a visible account whose suicide flag is already set
  returns \<open>False\<close> and still sets the balance to zero. Hence, for a visible
  account and \<open>v > 0\<close>, after \<open>Suicide a\<close>, \<open>AddBalance a v\<close> and
  \<open>Suicide a\<close> again, the second \<open>Suicide\<close> returns \<open>False\<close> and the balance
  of \<open>a\<close> is 0.
\<close>

theorem Suicide_again:
  assumes wf: "wf_journal (txn t)"
  shows "(HasSuicided t a = Inr True \<longrightarrow>
            (\<exists>t'. Suicide t a = Inr (False, t') \<and> GetBalance t' a = Inr 0))
       \<and> (Exist t a = Inr True \<and> 0 < v \<longrightarrow>
            (\<exists>s t1 t2 t3. Suicide t a = Inr (s, t1) \<and> AddBalance t1 a v = Inr t2
               \<and> GetBalance t2 a = Inr v
               \<and> Suicide t2 a = Inr (False, t3) \<and> GetBalance t3 a = Inr 0))"
proof -
  have again: "\<exists>t'. Suicide t a = Inr (False, t') \<and> GetBalance t' a = Inr 0"
    if wf: "wf_journal (txn t)" and obj: "visible t a = Some obj" "so_Suicide obj" for t obj
  proof -
    obtain t' where "Suicide t a = Inr (\<not> so_Suicide obj, t')" "wf_journal (txn t')"
        "visible t' a = Some (set_Balance 0 (obj\<lparr>so_Suicide := True\<rparr>))"
      using Suicide_post [OF wf obj(1)] by blast
    then show ?thesis
      using obj(2) by (auto simp: GetBalance_visible Balance_set_Balance)
  qed
  have first: "\<exists>t'. Suicide t a = Inr (False, t') \<and> GetBalance t' a = Inr 0"
    if "HasSuicided t a = Inr True"
  proof -
    from that obtain obj where "visible t a = Some obj" "so_Suicide obj"
      using wf by (auto simp: HasSuicided_wf split: option.splits)
    then show ?thesis by (rule again [OF wf])
  qed
  have seq: "\<exists>s t1 t2 t3. Suicide t a = Inr (s, t1) \<and> AddBalance t1 a v = Inr t2
               \<and> GetBalance t2 a = Inr v
               \<and> Suicide t2 a = Inr (False, t3) \<and> GetBalance t3 a = Inr 0"
    if ex: "Exist t a = Inr True"
  proof -
    from ex obtain obj where obj: "visible t a = Some obj"
      using wf by (auto simp: Exist_wf)
    let ?o1 = "set_Balance 0 (obj\<lparr>so_Suicide := True\<rparr>)"
    obtain t1 where t1: "Suicide t a = Inr (\<not> so_Suicide obj, t1)" "wf_journal (txn t1)"
        "visible t1 a = Some ?o1"
      using Suicide_post [OF wf obj] by blast
    have sub1: "subject t1 a = ?o1"
      by (simp add: subject_def t1(3))
    let ?g = "\<lambda>object. set_Balance (Balance (so_Account object) + v) object"
    have g: "wf_obj (?g (subject t1 a))" "\<not> so_Deleted (?g (subject t1 a))"
      using visible_wf_obj [OF t1(2,3)] visible_not_Deleted [OF t1(3)]
      by (simp_all add: sub1 wf_obj_set_Balance so_Deleted_set_Balance)
    from modify_post [of t1 ?g a, OF t1(2) g]
    obtain t2 where t2: "AddBalance t1 a v = Inr t2" "wf_journal (txn t2)"
        "visible t2 a = Some (?g ?o1)"
      by (auto simp: AddBalance_def sub1)
    have b2: "GetBalance t2 a = Inr v"
      by (simp add: GetBalance_visible [OF t2(2,3)] Balance_set_Balance)
    have "so_Suicide (?g ?o1)"
      by (simp add: set_Balance_def)
    from again [OF t2(2,3) this] t1(1) t2(1) b2 show ?thesis by blast
  qed
  from first seq show ?thesis by blast
qed

theorem Suicide_again_witness:
  "wf_journal (txn suicided_txn) \<and> HasSuicided suicided_txn addr1 = Inr True
   \<and> (\<exists>t'. Suicide suicided_txn addr1 = Inr (False, t') \<and> GetBalance t' addr1 = Inr 0)
   \<and> wf_journal (txn (example_txn 0)) \<and> Exist (example_txn 0) addr1 = Inr True \<and> (0::int) < 5
   \<and> (\<exists>s t1 t2 t3. Suicide (example_txn 0) addr1 = Inr (s, t1) \<and> AddBalance t1 addr1 5 = Inr t2
               \<and> GetBalance t2 addr1 = Inr 5
               \<and> Suicide t2 addr1 = Inr (False, t3) \<and> GetBalance t3 addr1 = Inr 0)"
proof -
  have h: "HasSuicided suicided_txn addr1 = Inr True"
    by (simp add: HasSuicided_def getStateObject_def suicided_txn_def Copy_id)
  show ?thesis
    using Suicide_again [OF suicided_wf, of addr1 5] Suicide_again [OF example_wf, of 0 addr1 5] h
    by (simp add: suicided_wf example_wf example_Exist)
qed

end
